theory Spec2Isabelle
  imports Complex_Main "HOL-Library.Word" "HOL-Library.List_Lexorder"
begin

section \<open>Tree nodes of the static-tree barriers\<close>

text \<open>
  The nodes of a tree are allocated one by one and handed out through a vector of
  pointers, \<open>nodes\<close>. A node is identified here by its index in that vector.
  A pointer to an arrival slot, \<^verbatim>\<open>&nodes[p]->arrival_children_flag[j]\<close>, is the pair
  \<open>(p, j)\<close>; the null pointer is \<open>None\<close>. A pointer to a departure-sense cell,
  \<^verbatim>\<open>&nodes[k]->sense\<close>, is the index \<open>k\<close>. The padding members carry no data.
\<close>

type_synonym slot_ptr = "(nat \<times> nat) option"

text \<open>\<^verbatim>\<open>static_tree_barrier::node\<close> (local departure).\<close>

record node =
  sense :: bool
  arrival_parent :: slot_ptr
  arrival_children_flag :: "bool list"
  departure_children :: "nat list"
  local_sense :: bool

text \<open>\<^verbatim>\<open>static_tree_barrier_global_departure::node\<close>: no sense cell, no departure list.\<close>

record gd_node =
  gd_arrival_parent :: slot_ptr
  gd_arrival_children_flag :: "bool list"
  gd_local_sense :: bool

text \<open>
  \<^verbatim>\<open>new raw_cache_aligned_node()\<close> zero-initialises the storage and the placement
  \<^verbatim>\<open>new (p) node()\<close> value-initialises the node: null parent, empty vectors, false flags.
\<close>

definition new_node :: node where
  "new_node = \<lparr>sense = False, arrival_parent = None, arrival_children_flag = [],
               departure_children = [], local_sense = False\<rparr>"

definition new_gd_node :: gd_node where
  "new_gd_node = \<lparr>gd_arrival_parent = None, gd_arrival_children_flag = [],
                  gd_local_sense = False\<rparr>"

text \<open>
  How a run ends without a result. \<open>Assertion_Failed\<close>: \<^verbatim>\<open>assert(0)\<close> aborts the
  program (the build does not define NDEBUG). \<open>Out_Of_Bounds\<close>: a read past the end of
  an array. \<open>Not_A_Number\<close>: a division of zero by zero, where the doubles of the source
  go on with a NaN; the model, on the reals, stops there.
\<close>

datatype error = Assertion_Failed | Out_Of_Bounds | Not_A_Number

subsection \<open>The statements of the layout switch\<close>

text \<open>
  \<^verbatim>\<open>v.resize(k)\<close> keeps the first \<open>k\<close> elements and appends default-constructed
  \<^verbatim>\<open>shared_flag\<close>s, whose constructor stores \<open>true\<close>. The builders resize each
  vector once, while it is empty; growing a vector that holds flags already would copy
  them with \<^verbatim>\<open>shared_flag\<close>'s empty copy constructor, which no builder does and which is
  not modelled.
\<close>

definition resize_flags :: "nat \<Rightarrow> bool list \<Rightarrow> bool list" where
  "resize_flags k fs = take k fs @ replicate (k - length fs) True"

text \<open>\<^verbatim>\<open>nodes[i]->arrival_parent = nullptr\<close>\<close>

definition parent_null :: "nat \<Rightarrow> node list \<Rightarrow> node list" where
  "parent_null i nodes = nodes[i := (nodes ! i)\<lparr>arrival_parent := None\<rparr>]"

text \<open>\<^verbatim>\<open>nodes[i]->arrival_parent = &nodes[p]->arrival_children_flag[j]\<close>\<close>

definition parent_slot :: "nat \<Rightarrow> nat \<Rightarrow> nat \<Rightarrow> node list \<Rightarrow> node list" where
  "parent_slot i p j nodes = nodes[i := (nodes ! i)\<lparr>arrival_parent := Some (p, j)\<rparr>]"

text \<open>\<^verbatim>\<open>nodes[i]->arrival_children_flag.resize(k)\<close>\<close>

definition resize_slots :: "nat \<Rightarrow> nat \<Rightarrow> node list \<Rightarrow> node list" where
  "resize_slots i k nodes =
     nodes[i := (nodes ! i)\<lparr>arrival_children_flag :=
                               resize_flags k (arrival_children_flag (nodes ! i))\<rparr>]"

text \<open>\<^verbatim>\<open>nodes[i]->departure_children.push_back(&nodes[k]->sense)\<close>\<close>

definition push_departure :: "nat \<Rightarrow> nat \<Rightarrow> node list \<Rightarrow> node list" where
  "push_departure i k nodes =
     nodes[i := (nodes ! i)\<lparr>departure_children := departure_children (nodes ! i) @ [k]\<rparr>]"

text \<open>The same statements on the nodes of the global-departure barrier.\<close>

definition gd_parent_null :: "nat \<Rightarrow> gd_node list \<Rightarrow> gd_node list" where
  "gd_parent_null i nodes = nodes[i := (nodes ! i)\<lparr>gd_arrival_parent := None\<rparr>]"

definition gd_parent_slot :: "nat \<Rightarrow> nat \<Rightarrow> nat \<Rightarrow> gd_node list \<Rightarrow> gd_node list" where
  "gd_parent_slot i p j nodes = nodes[i := (nodes ! i)\<lparr>gd_arrival_parent := Some (p, j)\<rparr>]"

definition gd_resize_slots :: "nat \<Rightarrow> nat \<Rightarrow> gd_node list \<Rightarrow> gd_node list" where
  "gd_resize_slots i k nodes =
     nodes[i := (nodes ! i)\<lparr>gd_arrival_children_flag :=
                               resize_flags k (gd_arrival_children_flag (nodes ! i))\<rparr>]"

text \<open>A case of the switch is a sequence of statements, run in order.\<close>

definition run_stmts :: "('s \<Rightarrow> 's) list \<Rightarrow> 's \<Rightarrow> 's" where
  "run_stmts stmts s = fold (\<lambda>stmt. stmt) stmts s"

subsection \<open>\<^verbatim>\<open>static_tree_layout_good_locality\<close>\<close>

definition good_locality_switch :: "nat \<Rightarrow> node list \<Rightarrow> error + node list" where
  "good_locality_switch num_threads nodes =
    (if num_threads = 1 then Inr (run_stmts
       [parent_null 0] nodes)
     else if num_threads = 2 then Inr (run_stmts
       [parent_null 0, resize_slots 0 1, push_departure 0 1,
        parent_slot 1 0 0] nodes)
     else if num_threads = 3 then Inr (run_stmts
       [parent_null 0, resize_slots 0 2, push_departure 0 1, push_departure 0 2,
        parent_slot 1 0 0,
        parent_slot 2 0 1] nodes)
     else if num_threads = 4 then Inr (run_stmts
       [parent_null 0, resize_slots 0 2, push_departure 0 1, push_departure 0 2,
        parent_slot 1 0 0,
        parent_slot 2 0 1, resize_slots 2 1, push_departure 2 3,
        parent_slot 3 2 0] nodes)
     else if num_threads = 5 then Inr (run_stmts
       [parent_null 0, resize_slots 0 2, push_departure 0 2, push_departure 0 4,
        parent_slot 4 0 0, resize_slots 4 1, push_departure 4 1,
        parent_slot 1 4 0,
        parent_slot 2 0 1, resize_slots 2 1, push_departure 2 3,
        parent_slot 3 2 0] nodes)
     else if num_threads = 6 then Inr (run_stmts
       [parent_null 0, resize_slots 0 2, push_departure 0 2, push_departure 0 4,
        parent_slot 4 0 0, resize_slots 4 2, push_departure 4 1, push_departure 4 5,
        parent_slot 1 4 0,
        parent_slot 2 0 1, resize_slots 2 1, push_departure 2 3,
        parent_slot 3 2 0,
        parent_slot 5 4 1] nodes)
     else if num_threads = 7 then Inr (run_stmts
       [parent_null 0, resize_slots 0 2, push_departure 0 2, push_departure 0 4,
        parent_slot 4 0 0, resize_slots 4 2, push_departure 4 1, push_departure 4 5,
        parent_slot 1 4 0,
        parent_slot 2 0 1, resize_slots 2 2, push_departure 2 3, push_departure 2 6,
        parent_slot 3 2 0,
        parent_slot 5 4 1,
        parent_slot 6 2 1] nodes)
     else if num_threads = 8 then Inr (run_stmts
       [parent_null 0, resize_slots 0 2, push_departure 0 2, push_departure 0 4,
        parent_slot 4 0 0, resize_slots 4 2, push_departure 4 1, push_departure 4 5,
        parent_slot 1 4 0,
        parent_slot 2 0 1, resize_slots 2 2, push_departure 2 3, push_departure 2 6,
        parent_slot 3 2 0, resize_slots 3 1, push_departure 3 7,
        parent_slot 5 4 1,
        parent_slot 6 2 1,
        parent_slot 7 3 0] nodes)
     else Inl Assertion_Failed)"

text \<open>
  Allocation of \<open>num_threads\<close> nodes, the initialisation of \<open>sense\<close> and
  \<open>local_sense\<close>, the switch, and the final loop that stores \<open>true\<close> into every
  arrival slot.
\<close>

definition init_senses :: "node \<Rightarrow> node" where
  "init_senses n = n\<lparr>sense := True, local_sense := False\<rparr>"

definition init_flags :: "node \<Rightarrow> node" where
  "init_flags n = n\<lparr>arrival_children_flag := map (\<lambda>_. True) (arrival_children_flag n)\<rparr>"

definition static_tree_layout_good_locality :: "nat \<Rightarrow> error + node list" where
  "static_tree_layout_good_locality num_threads =
     (case good_locality_switch num_threads
             (map init_senses (replicate num_threads new_node)) of
        Inl e \<Rightarrow> Inl e
      | Inr nodes \<Rightarrow> Inr (map init_flags nodes))"

subsection \<open>\<^verbatim>\<open>static_tree_layout_bad_locality\<close>\<close>

definition bad_locality_switch :: "nat \<Rightarrow> node list \<Rightarrow> error + node list" where
  "bad_locality_switch num_threads nodes =
    (if num_threads = 1 then Inr (run_stmts
       [parent_null 0] nodes)
     else if num_threads = 2 then Inr (run_stmts
       [parent_null 0, resize_slots 0 1, push_departure 0 1,
        parent_slot 1 0 0] nodes)
     else if num_threads = 3 then Inr (run_stmts
       [parent_null 0, resize_slots 0 2, push_departure 0 1, push_departure 0 2,
        parent_slot 1 0 0,
        parent_slot 2 0 1] nodes)
     else if num_threads = 4 then Inr (run_stmts
       [parent_null 0, resize_slots 0 2, push_departure 0 3, push_departure 0 2,
        parent_slot 2 0 1, resize_slots 2 1, push_departure 2 1,
        parent_slot 3 0 0,
        parent_slot 1 2 0] nodes)
     else if num_threads = 5 then Inr (run_stmts
       [parent_null 0, resize_slots 0 2, push_departure 0 3, push_departure 0 2,
        parent_slot 2 0 1, resize_slots 2 1, push_departure 2 1,
        parent_slot 3 0 0, resize_slots 3 1, push_departure 3 4,
        parent_slot 1 2 0,
        parent_slot 4 3 0] nodes)
     else if num_threads = 6 then Inr (run_stmts
       [parent_null 0, resize_slots 0 2, push_departure 0 3, push_departure 0 2,
        parent_slot 2 0 1, resize_slots 2 2, push_departure 2 1, push_departure 2 5,
        parent_slot 3 0 0, resize_slots 3 1, push_departure 3 4,
        parent_slot 1 2 0,
        parent_slot 4 3 0,
        parent_slot 5 2 1] nodes)
     else if num_threads = 7 then Inr (run_stmts
       [parent_null 0, resize_slots 0 2, push_departure 0 3, push_departure 0 2,
        parent_slot 2 0 1, resize_slots 2 2, push_departure 2 1, push_departure 2 5,
        parent_slot 3 0 0, resize_slots 3 1, push_departure 3 4,
        parent_slot 1 2 0,
        parent_slot 4 3 0, resize_slots 4 1, push_departure 4 6,
        parent_slot 5 2 1,
        parent_slot 6 4 0] nodes)
     else if num_threads = 8 then Inr (run_stmts
       [parent_null 0, resize_slots 0 2, push_departure 0 3, push_departure 0 2,
        parent_slot 2 0 1, resize_slots 2 2, push_departure 2 1, push_departure 2 5,
        parent_slot 3 0 0, resize_slots 3 1, push_departure 3 4,
        parent_slot 1 2 0,
        parent_slot 4 3 0, resize_slots 4 2, push_departure 4 6, push_departure 4 7,
        parent_slot 5 2 1,
        parent_slot 6 4 0,
        parent_slot 7 4 1] nodes)
     else Inl Assertion_Failed)"

definition static_tree_layout_bad_locality :: "nat \<Rightarrow> error + node list" where
  "static_tree_layout_bad_locality num_threads =
     (case bad_locality_switch num_threads
             (map init_senses (replicate num_threads new_node)) of
        Inl e \<Rightarrow> Inl e
      | Inr nodes \<Rightarrow> Inr (map init_flags nodes))"

subsection \<open>\<^verbatim>\<open>static_tree_global_departure_layout_good_locality\<close>\<close>

definition gd_good_locality_switch :: "nat \<Rightarrow> gd_node list \<Rightarrow> error + gd_node list" where
  "gd_good_locality_switch num_threads nodes =
    (if num_threads = 1 then Inr (run_stmts
       [gd_parent_null 0] nodes)
     else if num_threads = 2 then Inr (run_stmts
       [gd_parent_null 0, gd_resize_slots 0 1,
        gd_parent_slot 1 0 0] nodes)
     else if num_threads = 3 then Inr (run_stmts
       [gd_parent_null 0, gd_resize_slots 0 2,
        gd_parent_slot 1 0 0,
        gd_parent_slot 2 0 1] nodes)
     else if num_threads = 4 then Inr (run_stmts
       [gd_parent_null 0, gd_resize_slots 0 2,
        gd_parent_slot 1 0 0,
        gd_parent_slot 2 0 1, gd_resize_slots 2 1,
        gd_parent_slot 3 2 0] nodes)
     else if num_threads = 5 then Inr (run_stmts
       [gd_parent_null 0, gd_resize_slots 0 2,
        gd_parent_slot 4 0 0, gd_resize_slots 4 1,
        gd_parent_slot 1 4 0,
        gd_parent_slot 2 0 1, gd_resize_slots 2 1,
        gd_parent_slot 3 2 0] nodes)
     else if num_threads = 6 then Inr (run_stmts
       [gd_parent_null 0, gd_resize_slots 0 2,
        gd_parent_slot 4 0 0, gd_resize_slots 4 2,
        gd_parent_slot 1 4 0,
        gd_parent_slot 2 0 1, gd_resize_slots 2 1,
        gd_parent_slot 3 2 0,
        gd_parent_slot 5 4 1] nodes)
     else if num_threads = 7 then Inr (run_stmts
       [gd_parent_null 0, gd_resize_slots 0 2,
        gd_parent_slot 4 0 0, gd_resize_slots 4 2,
        gd_parent_slot 1 4 0,
        gd_parent_slot 2 0 1, gd_resize_slots 2 2,
        gd_parent_slot 3 2 0,
        gd_parent_slot 5 4 1,
        gd_parent_slot 6 2 1] nodes)
     else if num_threads = 8 then Inr (run_stmts
       [gd_parent_null 0, gd_resize_slots 0 2,
        gd_parent_slot 4 0 0, gd_resize_slots 4 2,
        gd_parent_slot 1 4 0,
        gd_parent_slot 2 0 1, gd_resize_slots 2 2,
        gd_parent_slot 3 2 0, gd_resize_slots 3 1,
        gd_parent_slot 5 4 1,
        gd_parent_slot 6 2 1,
        gd_parent_slot 7 3 0] nodes)
     else Inl Assertion_Failed)"

definition gd_init_senses :: "gd_node \<Rightarrow> gd_node" where
  "gd_init_senses n = n\<lparr>gd_local_sense := False\<rparr>"

definition gd_init_flags :: "gd_node \<Rightarrow> gd_node" where
  "gd_init_flags n =
     n\<lparr>gd_arrival_children_flag := map (\<lambda>_. True) (gd_arrival_children_flag n)\<rparr>"

definition static_tree_global_departure_layout_good_locality ::
    "nat \<Rightarrow> error + gd_node list" where
  "static_tree_global_departure_layout_good_locality num_threads =
     (case gd_good_locality_switch num_threads
             (map gd_init_senses (replicate num_threads new_gd_node)) of
        Inl e \<Rightarrow> Inl e
      | Inr nodes \<Rightarrow> Inr (map gd_init_flags nodes))"

section \<open>The arrival tree wired into a vector of nodes\<close>

text \<open>
  What the arrival phase sees of a node: its parent pointer and the number of its
  arrival slots. Both node types are read through this view.
\<close>

type_synonym arrival_view = "(slot_ptr \<times> nat) list"

definition arrival_view :: "node list \<Rightarrow> arrival_view" where
  "arrival_view nodes =
     map (\<lambda>n. (arrival_parent n, length (arrival_children_flag n))) nodes"

definition gd_arrival_view :: "gd_node list \<Rightarrow> arrival_view" where
  "gd_arrival_view nodes =
     map (\<lambda>n. (gd_arrival_parent n, length (gd_arrival_children_flag n))) nodes"

text \<open>The nodes whose parent pointer is slot \<open>j\<close> of node \<open>p\<close>, in index order.\<close>

definition slot_writers :: "arrival_view \<Rightarrow> nat \<Rightarrow> nat \<Rightarrow> nat list" where
  "slot_writers v p j = filter (\<lambda>i. fst (v ! i) = Some (p, j)) [0..<length v]"

text \<open>The arrival children of node \<open>p\<close>, in the order of its slots.\<close>

definition arrival_children :: "arrival_view \<Rightarrow> nat \<Rightarrow> nat list" where
  "arrival_children v p = concat (map (slot_writers v p) [0..<snd (v ! p)])"

datatype rtree = Node nat "rtree list"

text \<open>
  The tree below node \<open>p\<close>, followed for at most \<open>fuel\<close> levels; a tree on \<open>n\<close>
  nodes has fewer than \<open>n\<close> levels below its root.
\<close>

fun subtree :: "nat \<Rightarrow> arrival_view \<Rightarrow> nat \<Rightarrow> rtree" where
  "subtree 0 v p = Node p []"
| "subtree (Suc fuel) v p = Node p (map (subtree fuel v) (arrival_children v p))"

definition arrival_tree :: "arrival_view \<Rightarrow> rtree" where
  "arrival_tree v = subtree (length v) v 0"

text \<open>
  Wiring: node 0 has a null parent and is the only one; every other parent pointer is a
  slot that exists in the parent's array; every slot is pointed to by exactly one node.
\<close>

definition well_wired :: "arrival_view \<Rightarrow> bool" where
  "well_wired v =
     (list_all (\<lambda>i. case fst (v ! i) of
                       None \<Rightarrow> i = 0
                     | Some (p, j) \<Rightarrow> i \<noteq> 0 \<and> p < length v \<and> j < snd (v ! p))
               [0..<length v] \<and>
      list_all (\<lambda>p. list_all (\<lambda>j. length (slot_writers v p j) = 1) [0..<snd (v ! p)])
               [0..<length v])"

text \<open>
  The departure list of every node holds the sense cells of its arrival children, each
  once (the order of the two lists may differ).
\<close>

definition departure_mirrors_arrival :: "node list \<Rightarrow> bool" where
  "departure_mirrors_arrival nodes =
     list_all (\<lambda>p. distinct (departure_children (nodes ! p)) \<and>
                    set (departure_children (nodes ! p)) =
                    set (arrival_children (arrival_view nodes) p))
              [0..<length nodes]"

text \<open>Measures of a tree: nodes, edges, levels below the root, largest number of children.\<close>

fun tree_nodes :: "rtree \<Rightarrow> nat list" where
  "tree_nodes (Node i ts) = i # concat (map tree_nodes ts)"

definition edge_count :: "rtree \<Rightarrow> nat" where
  "edge_count t = length (tree_nodes t) - 1"

fun depth :: "rtree \<Rightarrow> nat" where
  "depth (Node i ts) = (if ts = [] then 0 else Suc (Max (set (map depth ts))))"

fun max_children :: "rtree \<Rightarrow> nat" where
  "max_children (Node i ts) = Max (set (length ts # map max_children ts))"

text \<open>
  The shape class of a tree: its code as a balanced bracket word, with the children's
  codes sorted, so that two trees have the same code exactly when one is the other with
  the node indices renamed and the children of each node reordered.
\<close>

fun shape_class :: "rtree \<Rightarrow> bool list" where
  "shape_class (Node i ts) = True # concat (sort (map shape_class ts)) @ [False]"

text \<open>
  The least \<open>k\<close> with \<open>n \<le> 2 ^ k\<close>, and the greatest \<open>k\<close> with \<open>2 ^ k \<le> n\<close>
  (for \<open>n \<ge> 1\<close>), by counting.
\<close>

definition ceil_log2 :: "nat \<Rightarrow> nat" where
  "ceil_log2 n = length (takeWhile (\<lambda>k. 2 ^ k < n) [0..<n])"

definition floor_log2 :: "nat \<Rightarrow> nat" where
  "floor_log2 n = length (takeWhile (\<lambda>k. 2 ^ Suc k \<le> n) [0..<n])"

text \<open>A binary tree on the nodes \<open>0, \<dots>, n - 1\<close> with root 0.\<close>

fun root :: "rtree \<Rightarrow> nat" where
  "root (Node i ts) = i"

definition binary_tree_on :: "nat \<Rightarrow> rtree \<Rightarrow> bool" where
  "binary_tree_on n t =
     (root t = 0 \<and> sort (tree_nodes t) = [0..<n] \<and> max_children t \<le> 2 \<and>
      edge_count t = n - 1)"

text \<open>The trees of the three builders; a failed build has none.\<close>

definition good_tree :: "nat \<Rightarrow> rtree option" where
  "good_tree n = (case static_tree_layout_good_locality n of
                    Inl e \<Rightarrow> None | Inr nodes \<Rightarrow> Some (arrival_tree (arrival_view nodes)))"

definition bad_tree :: "nat \<Rightarrow> rtree option" where
  "bad_tree n = (case static_tree_layout_bad_locality n of
                   Inl e \<Rightarrow> None | Inr nodes \<Rightarrow> Some (arrival_tree (arrival_view nodes)))"

definition gd_good_tree :: "nat \<Rightarrow> rtree option" where
  "gd_good_tree n = (case static_tree_global_departure_layout_good_locality n of
                       Inl e \<Rightarrow> None | Inr nodes \<Rightarrow> Some (arrival_tree (gd_arrival_view nodes)))"

text \<open>What is checked of a built vector of nodes.\<close>

definition good_wiring_ok :: "nat \<Rightarrow> bool" where
  "good_wiring_ok n =
     (case static_tree_layout_good_locality n of
        Inl e \<Rightarrow> False
      | Inr nodes \<Rightarrow> length nodes = n \<and> well_wired (arrival_view nodes) \<and>
                     departure_mirrors_arrival nodes)"

definition bad_wiring_ok :: "nat \<Rightarrow> bool" where
  "bad_wiring_ok n =
     (case static_tree_layout_bad_locality n of
        Inl e \<Rightarrow> False
      | Inr nodes \<Rightarrow> length nodes = n \<and> well_wired (arrival_view nodes) \<and>
                     departure_mirrors_arrival nodes)"

definition gd_good_wiring_ok :: "nat \<Rightarrow> bool" where
  "gd_good_wiring_ok n =
     (case static_tree_global_departure_layout_good_locality n of
        Inl e \<Rightarrow> False
      | Inr nodes \<Rightarrow> length nodes = n \<and> well_wired (gd_arrival_view nodes))"

text \<open>The comparison of the two layouts of the local-departure barrier for one count.\<close>

definition layouts_compared :: "nat \<Rightarrow> bool" where
  "layouts_compared n =
     (case good_tree n of
        None \<Rightarrow> False
      | Some g \<Rightarrow>
          (case bad_tree n of
             None \<Rightarrow> False
           | Some b \<Rightarrow>
               binary_tree_on n g \<and> binary_tree_on n b \<and>
               depth g = floor_log2 n \<and>
               depth b = (if n = 7 then 3 else floor_log2 n) \<and>
               (shape_class g = shape_class b) = (n \<le> 6)))"

section \<open>The confidence-interval accumulator\<close>

text \<open>
  \<^verbatim>\<open>confidence_interval\<close> of meanconf.hpp, with the doubles of the source read as real
  numbers (no rounding). The table \<^verbatim>\<open>t_critical_value\<close> of meanconf.cpp: by its comment,
  position \<open>v - 1\<close> holds the critical value for \<open>v\<close> degrees of freedom.
\<close>

definition t_critical_value :: "real list" where
  "t_critical_value = [636.6, 31.60, 12.92, 8.610, 6.869, 5.959, 5.408, 5.041,
     4.781, 4.587, 4.437, 4.318, 4.221, 4.140, 4.073, 4.015, 3.965, 3.922, 3.883, 3.850, 3.819,
     3.792, 3.768, 3.745, 3.725, 3.707, 3.690, 3.674, 3.659, 3.646]"

record confidence_interval =
  samples :: "real list"

text \<open>The constructor and \<^verbatim>\<open>reset\<close> only reserve capacity; \<^verbatim>\<open>add\<close> is a \<^verbatim>\<open>push_back\<close>.\<close>

definition confidence_interval_new :: "nat \<Rightarrow> confidence_interval" where
  "confidence_interval_new num_samples = \<lparr>samples = []\<rparr>"

definition add :: "real \<Rightarrow> confidence_interval \<Rightarrow> confidence_interval" where
  "add v ci = ci\<lparr>samples := samples ci @ [v]\<rparr>"

definition reset :: "nat \<Rightarrow> confidence_interval \<Rightarrow> confidence_interval" where
  "reset num_samples ci = ci\<lparr>samples := []\<rparr>"

text \<open>
  \<^verbatim>\<open>samples.size() - 1\<close> is computed on \<^verbatim>\<open>std::size_t\<close>, 64 bits wide on the x86-64
  target: for an empty vector it wraps around to \<open>2 ^ 64 - 1\<close>.
\<close>

definition size_minus_one :: "nat \<Rightarrow> nat" where
  "size_minus_one n = (n + (2 ^ 64 - 1)) mod 2 ^ 64"

text \<open>
  \<^verbatim>\<open>mean()\<close>: the two accumulation loops, the two divisions, the table lookup. The
  run stops at the first division of zero by zero and at a lookup past the table's end.
  The samples are \<^verbatim>\<open>double\<close>s; they are read here as real numbers, so rounding,
  overflow and the infinities of the floating-point arithmetic are left out. What is
  proved of \<^verbatim>\<open>mean()\<close> below is limited to what does not depend on them: which branch
  is taken for which number of samples, which entry of the table is read, and sums of
  small whole numbers, which \<^verbatim>\<open>double\<close> arithmetic computes exactly.
\<close>

definition mean :: "confidence_interval \<Rightarrow> error + real \<times> real \<times> real" where
  "mean ci =
     (let n = length (samples ci);
          m = foldl (\<lambda>m x. m + x) 0 (samples ci)
      in if n = 0 then Inl Not_A_Number
         else
           let m = m / real n;
               s = foldl (\<lambda>s x. s + (x - m) * (x - m)) 0 (samples ci)
           in if size_minus_one n = 0 then Inl Not_A_Number
              else
                let s = s / real (size_minus_one n)
                in if length t_critical_value \<le> size_minus_one n then Inl Out_Of_Bounds
                   else
                     let margin_of_error =
                           t_critical_value ! size_minus_one n * (sqrt s / sqrt (real n))
                     in Inr (m - margin_of_error, m, m + margin_of_error))"


section \<open>Atomic operations and the programs that perform them\<close>

text \<open>
  The atomic objects of the barriers: the counter and the sense flag of the centralized
  barrier (the single sense flag of the global-departure barrier is modelled by the same
  cell), the arrival slot \<open>j\<close> of node \<open>p\<close>, and the departure-sense cell of node \<open>i\<close>.
  The counter holds an \<^verbatim>\<open>unsigned int\<close>, every other cell a \<^verbatim>\<open>bool\<close>.
\<close>

datatype cell = Barrier_Sense | Flag nat nat | Node_Sense nat

datatype memory_order = Relaxed | Acquire | Release | Acq_Rel | Seq_Cst

record memory =
  counter :: "32 word"
  flags :: "cell \<Rightarrow> bool"

text \<open>
  An \<^verbatim>\<open>await\<close> is the sequence of atomic operations it performs in program order;
  an operation that reads continues with the value read. \<open>Spin c ord v p\<close> is the loop
  \<^verbatim>\<open>while (c.load(ord) != v) {}\<close> followed by \<open>p\<close>. The value returned is the new
  local sense. Memory is one shared store, changed by one operation at a time; the
  memory order of an operation is recorded and has no further effect here.
\<close>

datatype 'a prog =
    Return 'a
  | Fetch_Add "32 word" memory_order "32 word \<Rightarrow> 'a prog"
  | Load_Counter memory_order "32 word \<Rightarrow> 'a prog"
  | Store_Counter "32 word" memory_order "'a prog"
  | Load cell memory_order "bool \<Rightarrow> 'a prog"
  | Store cell bool memory_order "'a prog"
  | Spin cell memory_order bool "'a prog"

text \<open>What one operation did: a read-modify-write or a load with the value it read, a store.\<close>

datatype event =
    Ev_Fetch_Add "32 word" memory_order "32 word"
  | Ev_Load_Counter memory_order "32 word"
  | Ev_Store_Counter "32 word" memory_order
  | Ev_Load cell memory_order bool
  | Ev_Store cell bool memory_order

text \<open>The program left after its next operation did \<open>e\<close>; \<open>None\<close> when \<open>e\<close> is not its next operation.\<close>

fun replay1 :: "'a prog \<Rightarrow> event \<Rightarrow> 'a prog option" where
  "replay1 (Fetch_Add d ord k) (Ev_Fetch_Add d' ord' old) =
     (if d' = d \<and> ord' = ord then Some (k old) else None)"
| "replay1 (Load_Counter ord k) (Ev_Load_Counter ord' v) =
     (if ord' = ord then Some (k v) else None)"
| "replay1 (Store_Counter v ord p) (Ev_Store_Counter v' ord') =
     (if v' = v \<and> ord' = ord then Some p else None)"
| "replay1 (Load c ord k) (Ev_Load c' ord' v) =
     (if c' = c \<and> ord' = ord then Some (k v) else None)"
| "replay1 (Store c v ord p) (Ev_Store c' v' ord') =
     (if c' = c \<and> v' = v \<and> ord' = ord then Some p else None)"
| "replay1 (Spin c ord w p) (Ev_Load c' ord' v) =
     (if c' = c \<and> ord' = ord then Some (if v = w then p else Spin c ord w p) else None)"
| "replay1 _ _ = None"

fun replay :: "'a prog \<Rightarrow> event list \<Rightarrow> 'a prog option" where
  "replay p [] = Some p"
| "replay p (e # es) = (case replay1 p e of None \<Rightarrow> None | Some p' \<Rightarrow> replay p' es)"

text \<open>\<open>tr\<close> is the sequence of operations of a complete run of \<open>p\<close> that returns \<open>r\<close>.\<close>

definition completes :: "'a prog \<Rightarrow> event list \<Rightarrow> 'a \<Rightarrow> bool" where
  "completes p tr r = (replay p tr = Some (Return r))"

text \<open>The next operation of a program on a memory, and its effect on the memory.\<close>

fun next_event :: "memory \<Rightarrow> 'a prog \<Rightarrow> event option" where
  "next_event m (Return x) = None"
| "next_event m (Fetch_Add d ord k) = Some (Ev_Fetch_Add d ord (counter m))"
| "next_event m (Load_Counter ord k) = Some (Ev_Load_Counter ord (counter m))"
| "next_event m (Store_Counter v ord p) = Some (Ev_Store_Counter v ord)"
| "next_event m (Load c ord k) = Some (Ev_Load c ord (flags m c))"
| "next_event m (Store c v ord p) = Some (Ev_Store c v ord)"
| "next_event m (Spin c ord w p) = Some (Ev_Load c ord (flags m c))"

fun apply_event :: "event \<Rightarrow> memory \<Rightarrow> memory" where
  "apply_event (Ev_Fetch_Add d ord old) m = m\<lparr>counter := counter m + d\<rparr>"
| "apply_event (Ev_Store_Counter v ord) m = m\<lparr>counter := v\<rparr>"
| "apply_event (Ev_Store c v ord) m = m\<lparr>flags := (flags m)(c := v)\<rparr>"
| "apply_event (Ev_Load_Counter ord v) m = m"
| "apply_event (Ev_Load c ord v) m = m"

section \<open>The three \<^verbatim>\<open>await\<close> operations\<close>

subsection \<open>Centralized sense-reversing barrier\<close>

text \<open>
  The text of the header kept in the sources is an editor's backup copy. It holds four
  bodies of \<^verbatim>\<open>await()\<close>, each between \<^verbatim>\<open>#if 0\<close> and \<^verbatim>\<open>#endif\<close> in that copy; the
  benchmark suite includes the header itself and calls \<^verbatim>\<open>barrier.await()\<close>. The
  backoff object each body declares is never called. \<open>ls\<close> is the caller's thread-local
  \<^verbatim>\<open>local_sense\<close>; the value returned is its new value.
\<close>

text \<open>First body: release on arrival, relaxed spin, acquire once.\<close>

definition await_release_acquire :: "32 word \<Rightarrow> bool \<Rightarrow> bool prog" where
  "await_release_acquire num_threads ls =
     Fetch_Add 1 Release (\<lambda>pre_arrived.
       if pre_arrived + 1 = num_threads
       then Load_Counter Acquire (\<lambda>_.
            Store_Counter 0 Relaxed
           (Store Barrier_Sense ls Release
           (Return (\<not> ls))))
       else Spin Barrier_Sense Relaxed ls
           (Load Barrier_Sense Acquire (\<lambda>_.
            Return (\<not> ls))))"

text \<open>Second body: "the seq-cst version".\<close>

definition await_seq_cst :: "32 word \<Rightarrow> bool \<Rightarrow> bool prog" where
  "await_seq_cst num_threads ls =
     Fetch_Add 1 Seq_Cst (\<lambda>pre_arrived.
       if pre_arrived + 1 = num_threads
       then Store_Counter 0 Seq_Cst
           (Store Barrier_Sense ls Seq_Cst
           (Return (\<not> ls)))
       else Spin Barrier_Sense Seq_Cst ls
           (Load Barrier_Sense Seq_Cst (\<lambda>_.
            Return (\<not> ls))))"

text \<open>Third body: acquire-release on arrival, acquire spin.\<close>

definition await_acq_rel :: "32 word \<Rightarrow> bool \<Rightarrow> bool prog" where
  "await_acq_rel num_threads ls =
     Fetch_Add 1 Acq_Rel (\<lambda>pre_arrived.
       if pre_arrived + 1 = num_threads
       then Store_Counter 0 Relaxed
           (Store Barrier_Sense ls Release
           (Return (\<not> ls)))
       else Spin Barrier_Sense Acquire ls
           (Return (\<not> ls)))"

text \<open>Fourth body: "version that avoids hardware prefetching"; its statements are those of the first.\<close>

definition await_prefetch :: "32 word \<Rightarrow> bool \<Rightarrow> bool prog" where
  "await_prefetch num_threads ls =
     Fetch_Add 1 Release (\<lambda>pre_arrived.
       if pre_arrived + 1 = num_threads
       then Load_Counter Acquire (\<lambda>_.
            Store_Counter 0 Relaxed
           (Store Barrier_Sense ls Release
           (Return (\<not> ls))))
       else Spin Barrier_Sense Relaxed ls
           (Load Barrier_Sense Acquire (\<lambda>_.
            Return (\<not> ls))))"

text \<open>
  The four bodies in the order of the header, each with the condition of its \<^verbatim>\<open>#if\<close> in
  the backup copy.
\<close>

definition await_variants :: "(bool \<times> (32 word \<Rightarrow> bool \<Rightarrow> bool prog)) list" where
  "await_variants =
     [(False, await_release_acquire), (False, await_seq_cst),
      (False, await_acq_rel), (False, await_prefetch)]"

subsection \<open>Static-tree barrier, local departure\<close>

text \<open>
  \<^verbatim>\<open>static_tree_barrier::await(node* n)\<close>, the body under \<^verbatim>\<open>#if 1\<close>. The node is given
  by its index \<open>i\<close> and its fields \<open>n\<close>. The first loop runs over the arrival slots of
  the node, the last over its departure list.
\<close>

fun wait_for_children :: "nat \<Rightarrow> nat list \<Rightarrow> bool \<Rightarrow> 'a prog \<Rightarrow> 'a prog" where
  "wait_for_children i [] ls rest = rest"
| "wait_for_children i (j # js) ls rest =
     Spin (Flag i j) Relaxed ls
    (Load (Flag i j) Acquire (\<lambda>_.
     wait_for_children i js ls rest))"

fun signal_departure :: "nat list \<Rightarrow> bool \<Rightarrow> 'a prog \<Rightarrow> 'a prog" where
  "signal_departure [] ls rest = rest"
| "signal_departure (d # ds) ls rest =
     Store (Node_Sense d) ls Release (signal_departure ds ls rest)"

definition static_tree_await :: "node \<Rightarrow> nat \<Rightarrow> bool prog" where
  "static_tree_await n i =
     wait_for_children i [0..<length (arrival_children_flag n)] (local_sense n)
       (case arrival_parent n of
          Some (p, j) \<Rightarrow>
            Store (Flag p j) (local_sense n) Release
           (Spin (Node_Sense i) Relaxed (local_sense n)
           (Load (Node_Sense i) Acquire (\<lambda>_.
            signal_departure (departure_children n) (local_sense n)
           (Return (\<not> local_sense n)))))
        | None \<Rightarrow>
            signal_departure (departure_children n) (local_sense n)
           (Return (\<not> local_sense n)))"

subsection \<open>Static-tree barrier, global departure\<close>

text \<open>\<^verbatim>\<open>static_tree_barrier_global_departure::await(node* n)\<close>, with its own arrival loop.\<close>

fun gd_wait_for_children :: "nat \<Rightarrow> nat list \<Rightarrow> bool \<Rightarrow> 'a prog \<Rightarrow> 'a prog" where
  "gd_wait_for_children i [] ls rest = rest"
| "gd_wait_for_children i (j # js) ls rest =
     Spin (Flag i j) Relaxed ls
    (Load (Flag i j) Acquire (\<lambda>_.
     gd_wait_for_children i js ls rest))"

definition global_departure_await :: "gd_node \<Rightarrow> nat \<Rightarrow> bool prog" where
  "global_departure_await n i =
     gd_wait_for_children i [0..<length (gd_arrival_children_flag n)] (gd_local_sense n)
       (case gd_arrival_parent n of
          Some (p, j) \<Rightarrow>
            Store (Flag p j) (gd_local_sense n) Release
           (Spin Barrier_Sense Relaxed (gd_local_sense n)
           (Load Barrier_Sense Acquire (\<lambda>_.
            Return (\<not> gd_local_sense n))))
        | None \<Rightarrow>
            Store Barrier_Sense (gd_local_sense n) Release
           (Return (\<not> gd_local_sense n)))"

section \<open>The operations as the specification words them\<close>

text \<open>
  Each step of the specification reads a piece off the front of a sequence of operations
  and hands on the rest; \<open>None\<close> when the sequence does not start with that step.
\<close>

type_synonym step_reader = "event list \<Rightarrow> event list option"

text \<open>"Spin loading \<open>c\<close> relaxed until it equals \<open>v\<close>": loads of the other value, then one of \<open>v\<close>.\<close>

fun spec_spin_relaxed :: "cell \<Rightarrow> bool \<Rightarrow> step_reader" where
  "spec_spin_relaxed c v (Ev_Load c' Relaxed b # tr) =
     (if c' \<noteq> c then None else if b = v then Some tr else spec_spin_relaxed c v tr)"
| "spec_spin_relaxed c v _ = None"

text \<open>"Then acquire-load \<open>c\<close> once."\<close>

fun spec_acquire_load :: "cell \<Rightarrow> step_reader" where
  "spec_acquire_load c (Ev_Load c' Acquire b # tr) = (if c' = c then Some tr else None)"
| "spec_acquire_load c _ = None"

text \<open>"Release-store \<open>v\<close> into \<open>c\<close>."\<close>

fun spec_release_store :: "cell \<Rightarrow> bool \<Rightarrow> step_reader" where
  "spec_release_store c v (Ev_Store c' b Release # tr) =
     (if c' = c \<and> b = v then Some tr else None)"
| "spec_release_store c v _ = None"

text \<open>One step after another, and one step for each element of a list, in order.\<close>

definition and_then :: "step_reader \<Rightarrow> step_reader \<Rightarrow> step_reader" where
  "and_then f g tr = (case f tr of None \<Rightarrow> None | Some rest \<Rightarrow> g rest)"

fun for_each :: "('x \<Rightarrow> step_reader) \<Rightarrow> 'x list \<Rightarrow> step_reader" where
  "for_each f [] tr = Some tr"
| "for_each f (x # xs) tr = (case f x tr of None \<Rightarrow> None | Some rest \<Rightarrow> for_each f xs rest)"

text \<open>
  Section 4.1, steps 1 to 4: the fetch-and-add with release order; for the releaser an
  acquire load of the counter, the relaxed store of 0 and the release store of the local
  sense; for the others the relaxed spin on the sense and one acquire load; the new local
  sense is the old one flipped.
\<close>

fun spec_acquire_load_counter :: step_reader where
  "spec_acquire_load_counter (Ev_Load_Counter Acquire v # tr) = Some tr"
| "spec_acquire_load_counter _ = None"

fun spec_relaxed_store_counter :: "32 word \<Rightarrow> step_reader" where
  "spec_relaxed_store_counter v (Ev_Store_Counter v' Relaxed # tr) =
     (if v' = v then Some tr else None)"
| "spec_relaxed_store_counter v _ = None"

fun spec_centralized_await :: "32 word \<Rightarrow> bool \<Rightarrow> event list \<Rightarrow> bool \<Rightarrow> bool" where
  "spec_centralized_await N ls (Ev_Fetch_Add d ord pre # tr) r =
     (d = 1 \<and> ord = Release \<and> r = (\<not> ls) \<and>
      (if pre + 1 = N
       then and_then spec_acquire_load_counter
           (and_then (spec_relaxed_store_counter 0)
                     (spec_release_store Barrier_Sense ls)) tr = Some []
       else and_then (spec_spin_relaxed Barrier_Sense ls)
                     (spec_acquire_load Barrier_Sense) tr = Some []))"
| "spec_centralized_await N ls _ r = False"

text \<open>Section 4.2, step 1, for the slots \<open>0, \<dots>, k - 1\<close> of node \<open>i\<close>.\<close>

definition spec_arrival_phase :: "nat \<Rightarrow> nat \<Rightarrow> bool \<Rightarrow> step_reader" where
  "spec_arrival_phase i k ls =
     for_each (\<lambda>j. and_then (spec_spin_relaxed (Flag i j) ls) (spec_acquire_load (Flag i j)))
              [0..<k]"

text \<open>Section 4.2, steps 2 to 4.\<close>

definition spec_static_tree_await :: "node \<Rightarrow> nat \<Rightarrow> event list \<Rightarrow> bool \<Rightarrow> bool" where
  "spec_static_tree_await n i tr r =
     (r = (\<not> local_sense n) \<and>
      and_then (spec_arrival_phase i (length (arrival_children_flag n)) (local_sense n))
     (and_then (case arrival_parent n of
                  None \<Rightarrow> Some
                | Some (p, j) \<Rightarrow>
                    and_then (spec_release_store (Flag p j) (local_sense n))
                   (and_then (spec_spin_relaxed (Node_Sense i) (local_sense n))
                             (spec_acquire_load (Node_Sense i))))
               (for_each (\<lambda>d. spec_release_store (Node_Sense d) (local_sense n))
                         (departure_children n))) tr = Some [])"

text \<open>Section 4.3: the arrival phase of section 4.2, then the departure on the global flag.\<close>

definition spec_global_departure_await :: "gd_node \<Rightarrow> nat \<Rightarrow> event list \<Rightarrow> bool \<Rightarrow> bool" where
  "spec_global_departure_await n i tr r =
     (r = (\<not> gd_local_sense n) \<and>
      and_then (spec_arrival_phase i (length (gd_arrival_children_flag n)) (gd_local_sense n))
               (case gd_arrival_parent n of
                  None \<Rightarrow> spec_release_store Barrier_Sense (gd_local_sense n)
                | Some (p, j) \<Rightarrow>
                    and_then (spec_release_store (Flag p j) (gd_local_sense n))
                   (and_then (spec_spin_relaxed Barrier_Sense (gd_local_sense n))
                             (spec_acquire_load Barrier_Sense))) tr = Some [])"

text \<open>The stores among the operations of a run.\<close>

fun stores_of :: "event list \<Rightarrow> (cell \<times> bool \<times> memory_order) list" where
  "stores_of [] = []"
| "stores_of (Ev_Store c v ord # tr) = (c, v, ord) # stores_of tr"
| "stores_of (_ # tr) = stores_of tr"

text \<open>A reader accepts the front of \<open>tr\<close> and the rest satisfies \<open>X\<close>.\<close>

definition follows :: "step_reader \<Rightarrow> (event list \<Rightarrow> bool) \<Rightarrow> event list \<Rightarrow> bool" where
  "follows f X tr = (case f tr of None \<Rightarrow> False | Some rest \<Rightarrow> X rest)"

section \<open>Threads running a barrier\<close>

text \<open>
  The worker of the benchmark driver: \<^verbatim>\<open>for (i = 0; i < num_episodes; ++i) { work();
  barrier.await(...); }\<close>. A thread is between two calls (\<open>pending = None\<close>) or inside
  a call, with the operations still to perform. \<open>sense_of\<close> is its local sense (the
  thread-local flag of the centralized barrier, the \<^verbatim>\<open>local_sense\<close> of its node in the
  tree barriers), \<open>completed\<close> the number of calls it has returned from. The workload
  touches no shared cell and is not modelled; the number of episodes is not bounded.
\<close>

record thread =
  sense_of :: bool
  pending :: "bool prog option"
  completed :: nat

record system =
  mem :: memory
  threads :: "thread list"

text \<open>The \<^verbatim>\<open>await\<close> that thread \<open>t\<close> calls when its local sense is \<open>ls\<close>.\<close>

type_synonym body = "nat \<Rightarrow> bool \<Rightarrow> bool prog"

datatype label = Call | Atomic event | Ret | Skip

text \<open>The program after its next operation, performed on memory \<open>m\<close>.\<close>

fun advance :: "memory \<Rightarrow> 'a prog \<Rightarrow> 'a prog" where
  "advance m (Return x) = Return x"
| "advance m (Fetch_Add d ord k) = k (counter m)"
| "advance m (Load_Counter ord k) = k (counter m)"
| "advance m (Store_Counter v ord p) = p"
| "advance m (Load c ord k) = k (flags m c)"
| "advance m (Store c v ord p) = p"
| "advance m (Spin c ord w p) = (if flags m c = w then p else Spin c ord w p)"

text \<open>
  One step of a thread: the call, one atomic operation, or the return, which stores the
  flipped local sense and counts the episode.
\<close>

definition thread_step :: "body \<Rightarrow> nat \<Rightarrow> memory \<Rightarrow> thread \<Rightarrow> label \<times> memory \<times> thread" where
  "thread_step body t m th =
     (case pending th of
        None \<Rightarrow> (Call, m, th\<lparr>pending := Some (body t (sense_of th))\<rparr>)
      | Some p \<Rightarrow>
          (case next_event m p of
             None \<Rightarrow>
               (case p of
                  Return v \<Rightarrow>
                    (Ret, m, th\<lparr>sense_of := v, pending := None,
                                 completed := Suc (completed th)\<rparr>)
                | _ \<Rightarrow> (Skip, m, th))
           | Some e \<Rightarrow> (Atomic e, apply_event e m, th\<lparr>pending := Some (advance m p)\<rparr>)))"

text \<open>One step of the system: thread \<open>t\<close> moves; a \<open>t\<close> that names no thread changes nothing.\<close>

definition sys_step :: "body \<Rightarrow> nat \<Rightarrow> system \<Rightarrow> label \<times> system" where
  "sys_step body t s =
     (if t < length (threads s)
      then (case thread_step body t (mem s) (threads s ! t) of
              (l, m', th') \<Rightarrow> (l, \<lparr>mem = m', threads = (threads s)[t := th']\<rparr>))
      else (Skip, s))"

text \<open>
  A schedule names the thread that moves at each step. Every interleaving of the threads
  is the run of some schedule.
\<close>

fun run :: "body \<Rightarrow> nat list \<Rightarrow> system \<Rightarrow> system" where
  "run body [] s = s"
| "run body (t # ts) s = run body ts (snd (sys_step body t s))"

fun trace_of :: "body \<Rightarrow> nat list \<Rightarrow> system \<Rightarrow> (nat \<times> label) list" where
  "trace_of body [] s = []"
| "trace_of body (t # ts) s =
     (t, fst (sys_step body t s)) # trace_of body ts (snd (sys_step body t s))"

text \<open>
  A thread before its first call: no episode completed, local sense false. The tree
  builders store false into \<^verbatim>\<open>local_sense\<close>. Modelled from the spec: the initial value
  of the centralized barrier's thread-local \<^verbatim>\<open>local_sense\<close>, which is defined in
  centralized_sense_reversing_barrier.cpp, a file that is not among the sources; the
  specification initialises it to false.
\<close>

definition new_thread :: thread where
  "new_thread = \<lparr>sense_of = False, pending = None, completed = 0\<rparr>"

text \<open>The cell an operation reads or writes (the counter is not a \<open>cell\<close>).\<close>

fun cell_of :: "event \<Rightarrow> cell option" where
  "cell_of (Ev_Load c ord v) = Some c"
| "cell_of (Ev_Store c v ord) = Some c"
| "cell_of _ = None"

text \<open>The cells a program can touch, and the values it can return, over all it may read.\<close>

primrec cells_of :: "'a prog \<Rightarrow> cell set" where
  "cells_of (Return x) = {}"
| "cells_of (Fetch_Add d ord k) = (\<Union>v. cells_of (k v))"
| "cells_of (Load_Counter ord k) = (\<Union>v. cells_of (k v))"
| "cells_of (Store_Counter v ord p) = cells_of p"
| "cells_of (Load c ord k) = insert c (\<Union>v. cells_of (k v))"
| "cells_of (Store c v ord p) = insert c (cells_of p)"
| "cells_of (Spin c ord w p) = insert c (cells_of p)"

primrec results_of :: "'a prog \<Rightarrow> 'a set" where
  "results_of (Return x) = {x}"
| "results_of (Fetch_Add d ord k) = (\<Union>v. results_of (k v))"
| "results_of (Load_Counter ord k) = (\<Union>v. results_of (k v))"
| "results_of (Store_Counter v ord p) = results_of p"
| "results_of (Load c ord k) = (\<Union>v. results_of (k v))"
| "results_of (Store c v ord p) = results_of p"
| "results_of (Spin c ord w p) = results_of p"

subsection \<open>The three systems\<close>

text \<open>
  The centralized barrier as its constructor leaves it (\<open>counter = 0\<close>, \<open>sense = true\<close>),
  with \<open>num_threads\<close> threads whose local sense is false.
\<close>

definition centralized_init :: "32 word \<Rightarrow> system" where
  "centralized_init num_threads =
     \<lparr>mem = \<lparr>counter = 0, flags = (\<lambda>c. True)\<rparr>,
      threads = replicate (unat num_threads) new_thread\<rparr>"

definition centralized_body :: "32 word \<Rightarrow> body" where
  "centralized_body num_threads t ls = await_release_acquire num_threads ls"

text \<open>
  A tree barrier on a built vector of nodes: thread \<open>t\<close> uses \<open>nodes[t]\<close>. The cells
  hold what the builder stored; a cell that no node has reads as true.
\<close>

definition memory_of :: "node list \<Rightarrow> memory" where
  "memory_of nodes =
     \<lparr>counter = 0,
      flags = (\<lambda>c. case c of
                 Barrier_Sense \<Rightarrow> True
               | Flag p j \<Rightarrow>
                   (if p < length nodes \<and> j < length (arrival_children_flag (nodes ! p))
                    then arrival_children_flag (nodes ! p) ! j else True)
               | Node_Sense i \<Rightarrow> (if i < length nodes then sense (nodes ! i) else True))\<rparr>"

definition static_tree_init :: "node list \<Rightarrow> system" where
  "static_tree_init nodes =
     \<lparr>mem = memory_of nodes,
      threads = map (\<lambda>n. new_thread\<lparr>sense_of := local_sense n\<rparr>) nodes\<rparr>"

definition static_tree_body :: "node list \<Rightarrow> body" where
  "static_tree_body nodes t ls = static_tree_await ((nodes ! t)\<lparr>local_sense := ls\<rparr>) t"

definition gd_memory_of :: "gd_node list \<Rightarrow> memory" where
  "gd_memory_of nodes =
     \<lparr>counter = 0,
      flags = (\<lambda>c. case c of
                 Barrier_Sense \<Rightarrow> True
               | Flag p j \<Rightarrow>
                   (if p < length nodes \<and> j < length (gd_arrival_children_flag (nodes ! p))
                    then gd_arrival_children_flag (nodes ! p) ! j else True)
               | Node_Sense i \<Rightarrow> True)\<rparr>"

definition global_departure_init :: "gd_node list \<Rightarrow> system" where
  "global_departure_init nodes =
     \<lparr>mem = gd_memory_of nodes,
      threads = map (\<lambda>n. new_thread\<lparr>sense_of := gd_local_sense n\<rparr>) nodes\<rparr>"

definition global_departure_body :: "gd_node list \<Rightarrow> body" where
  "global_departure_body nodes t ls =
     global_departure_await ((nodes ! t)\<lparr>gd_local_sense := ls\<rparr>) t"

text \<open>All threads are between two calls and have completed \<open>k\<close> episodes.\<close>

definition after_episode :: "nat \<Rightarrow> system \<Rightarrow> bool" where
  "after_episode k s =
     list_all (\<lambda>th. pending th = None \<and> completed th = k) (threads s)"

text \<open>The root's sense cell is named by no departure list, and the root has no parent.\<close>

definition root_sense_unreferenced :: "node list \<Rightarrow> bool" where
  "root_sense_unreferenced nodes =
     (nodes \<noteq> [] \<and> arrival_parent (nodes ! 0) = None \<and>
      list_all (\<lambda>n. 0 \<notin> set (departure_children n)) nodes)"

section \<open>Invariants of the runs\<close>

text \<open>\<open>await\<close> returns the flipped local sense, whatever it reads.\<close>

definition flips :: "body \<Rightarrow> bool" where
  "flips body = (\<forall>t ls. results_of (body t ls) \<subseteq> {\<not> ls})"

definition parity_ok :: "thread \<Rightarrow> bool" where
  "parity_ok th =
     (sense_of th = odd (completed th) \<and>
      (\<forall>p. pending th = Some p \<longrightarrow> results_of p \<subseteq> {\<not> sense_of th}))"

text \<open>A step touches cell \<open>c\<close>; no \<^verbatim>\<open>await\<close> of the first \<open>n\<close> threads names \<open>c\<close>.\<close>

definition touches :: "cell \<Rightarrow> label \<Rightarrow> bool" where
  "touches c l = (case l of Atomic e \<Rightarrow> cell_of e = Some c | _ \<Rightarrow> False)"

definition never_names :: "cell \<Rightarrow> body \<Rightarrow> nat \<Rightarrow> bool" where
  "never_names c body n = (\<forall>t < n. \<forall>ls. c \<notin> cells_of (body t ls))"

definition cell_free :: "cell \<Rightarrow> system \<Rightarrow> bool" where
  "cell_free c s =
     (\<forall>u < length (threads s). \<forall>p. pending (threads s ! u) = Some p \<longrightarrow> c \<notin> cells_of p)"

subsection \<open>The points of the centralized \<^verbatim>\<open>await\<close>\<close>

text \<open>
  Where a thread stands: between calls, called and not yet arrived, on the releaser's
  path before each of its three operations, in the spin loop, before the acquire load
  after the loop, before the return.
\<close>

datatype phase = Idle | Called | Rel1 | Rel2 | Rel3 | Wait1 | Wait2 | Fin

fun code_at :: "32 word \<Rightarrow> bool \<Rightarrow> phase \<Rightarrow> bool prog option" where
  "code_at N ls Idle = None"
| "code_at N ls Called = Some (await_release_acquire N ls)"
| "code_at N ls Rel1 =
     Some (Load_Counter Acquire (\<lambda>_. Store_Counter 0 Relaxed
            (Store Barrier_Sense ls Release (Return (\<not> ls)))))"
| "code_at N ls Rel2 =
     Some (Store_Counter 0 Relaxed (Store Barrier_Sense ls Release (Return (\<not> ls))))"
| "code_at N ls Rel3 = Some (Store Barrier_Sense ls Release (Return (\<not> ls)))"
| "code_at N ls Wait1 =
     Some (Spin Barrier_Sense Relaxed ls (Load Barrier_Sense Acquire (\<lambda>_. Return (\<not> ls))))"
| "code_at N ls Wait2 = Some (Load Barrier_Sense Acquire (\<lambda>_. Return (\<not> ls)))"
| "code_at N ls Fin = Some (Return (\<not> ls))"

fun phase_of :: "bool prog option \<Rightarrow> phase" where
  "phase_of None = Idle"
| "phase_of (Some (Fetch_Add d ord k)) = Called"
| "phase_of (Some (Load_Counter ord k)) = Rel1"
| "phase_of (Some (Store_Counter v ord p)) = Rel2"
| "phase_of (Some (Store c v ord p)) = Rel3"
| "phase_of (Some (Spin c ord w p)) = Wait1"
| "phase_of (Some (Load c ord k)) = Wait2"
| "phase_of (Some (Return x)) = Fin"

definition on_path :: "32 word \<Rightarrow> thread \<Rightarrow> bool" where
  "on_path N th = (pending th = code_at N (sense_of th) (phase_of (pending th)))"

text \<open>What the invariant looks at: the counter, the sense, and each thread's point and local sense.\<close>

type_synonym view = "32 word \<times> bool \<times> (phase \<times> bool) list"

definition view_of :: "system \<Rightarrow> view" where
  "view_of s =
     (counter (mem s), flags (mem s) Barrier_Sense,
      map (\<lambda>th. (phase_of (pending th), sense_of th)) (threads s))"

fun phase_step :: "32 word \<Rightarrow> 32 word \<times> bool \<Rightarrow> phase \<times> bool \<Rightarrow> (32 word \<times> bool) \<times> phase \<times> bool" where
  "phase_step N (c, S) (Idle, ls) = ((c, S), (Called, ls))"
| "phase_step N (c, S) (Called, ls) = ((c + 1, S), (if c + 1 = N then Rel1 else Wait1, ls))"
| "phase_step N (c, S) (Rel1, ls) = ((c, S), (Rel2, ls))"
| "phase_step N (c, S) (Rel2, ls) = ((0, S), (Rel3, ls))"
| "phase_step N (c, S) (Rel3, ls) = ((c, ls), (Fin, ls))"
| "phase_step N (c, S) (Wait1, ls) = ((c, S), (if S = ls then Wait2 else Wait1, ls))"
| "phase_step N (c, S) (Wait2, ls) = ((c, S), (Fin, ls))"
| "phase_step N (c, S) (Fin, ls) = ((c, S), (Idle, \<not> ls))"

fun view_step :: "32 word \<Rightarrow> nat \<Rightarrow> view \<Rightarrow> view" where
  "view_step N t (c, S, ps) =
     (case phase_step N (c, S) (ps ! t) of ((c', S'), x) \<Rightarrow> (c', S', ps[t := x]))"

text \<open>The threads that have arrived in the running episode and wait for its release.\<close>

definition arrived :: "bool \<Rightarrow> (phase \<times> bool) list \<Rightarrow> nat set" where
  "arrived S ps = {u. u < length ps \<and> ps ! u = (Wait1, \<not> S)}"

definition releasing :: "phase \<Rightarrow> bool" where
  "releasing ph = (ph = Rel1 \<or> ph = Rel2 \<or> ph = Rel3)"

text \<open>
  The invariant of the centralized barrier. Threads that have not arrived, and the
  releaser, hold the sense opposite to the shared one; threads leaving the previous
  episode hold the shared one. Without a releaser the counter counts the arrived
  threads, fewer than all. With a releaser every other thread has arrived, and the
  counter holds \<open>N\<close> until the releaser resets it.
\<close>

definition view_inv :: "32 word \<Rightarrow> view \<Rightarrow> bool" where
  "view_inv N v = (case v of (c, S, ps) \<Rightarrow>
      length ps = unat N \<and>
      (\<forall>u < length ps. fst (ps ! u) \<in> {Idle, Called, Rel1, Rel2, Rel3} \<longrightarrow> snd (ps ! u) = (\<not> S)) \<and>
      (\<forall>u < length ps. fst (ps ! u) \<in> {Wait2, Fin} \<longrightarrow> snd (ps ! u) = S) \<and>
      ((\<forall>u < length ps. \<not> releasing (fst (ps ! u))) \<longrightarrow>
         unat c = card (arrived S ps) \<and> card (arrived S ps) < length ps) \<and>
      (\<forall>r < length ps. releasing (fst (ps ! r)) \<longrightarrow>
         (\<forall>u < length ps. u \<noteq> r \<longrightarrow> ps ! u = (Wait1, \<not> S)) \<and>
         c = (if fst (ps ! r) = Rel3 then 0 else N)))"

definition central_inv :: "32 word \<Rightarrow> system \<Rightarrow> bool" where
  "central_inv N s =
     ((\<forall>u < length (threads s). on_path N (threads s ! u)) \<and> view_inv N (view_of s))"

text \<open>Every thread's local sense is the parity of the episodes it has completed.\<close>

definition senses_match_parity :: "system \<Rightarrow> bool" where
  "senses_match_parity s = list_all (\<lambda>th. sense_of th = odd (completed th)) (threads s)"

text \<open>
  A thread that has completed two more episodes in the longer of two runs holds the local
  sense it held in the shorter.
\<close>

definition round_trip :: "system \<Rightarrow> system \<Rightarrow> bool" where
  "round_trip s s' =
     list_all2 (\<lambda>th th'. completed th' = completed th + 2 \<longrightarrow> sense_of th' = sense_of th)
       (threads s) (threads s')"

text \<open>The root's sense cell holds true when built, and nothing names it.\<close>

definition good_root_ok :: "nat \<Rightarrow> bool" where
  "good_root_ok n =
     (case static_tree_layout_good_locality n of
        Inl e \<Rightarrow> False
      | Inr nodes \<Rightarrow> root_sense_unreferenced nodes \<and> sense (nodes ! 0))"

definition bad_root_ok :: "nat \<Rightarrow> bool" where
  "bad_root_ok n =
     (case static_tree_layout_bad_locality n of
        Inl e \<Rightarrow> False
      | Inr nodes \<Rightarrow> root_sense_unreferenced nodes \<and> sense (nodes ! 0))"

text \<open>A schedule that takes four threads of the centralized barrier through one episode.\<close>

definition one_episode_of_four :: "nat list" where
  "one_episode_of_four = [0, 0, 1, 1, 2, 2, 3, 3, 3, 3, 3, 3, 0, 0, 0, 1, 1, 1, 2, 2, 2]"
section \<open>Properties of the tree builders\<close>

subsection \<open>The trees built for each participant count\<close>

lemma good_tree_1: "good_tree 1 = Some (Node 0 [])"
  by code_simp

lemma good_tree_2: "good_tree 2 = Some (Node 0 [Node 1 []])"
  by code_simp

lemma good_tree_3: "good_tree 3 = Some (Node 0 [Node 1 [], Node 2 []])"
  by code_simp

lemma good_tree_4: "good_tree 4 = Some (Node 0 [Node 1 [], Node 2 [Node 3 []]])"
  by code_simp

lemma good_tree_5: "good_tree 5 = Some (Node 0 [Node 4 [Node 1 []], Node 2 [Node 3 []]])"
  by code_simp

lemma good_tree_6:
  "good_tree 6 = Some (Node 0 [Node 4 [Node 1 [], Node 5 []], Node 2 [Node 3 []]])"
  by code_simp

lemma good_tree_7:
  "good_tree 7 = Some (Node 0 [Node 4 [Node 1 [], Node 5 []], Node 2 [Node 3 [], Node 6 []]])"
  by code_simp

lemma good_tree_8:
  "good_tree 8 =
     Some (Node 0 [Node 4 [Node 1 [], Node 5 []], Node 2 [Node 3 [Node 7 []], Node 6 []]])"
  by code_simp

lemma bad_tree_1: "bad_tree 1 = Some (Node 0 [])"
  by code_simp

lemma bad_tree_2: "bad_tree 2 = Some (Node 0 [Node 1 []])"
  by code_simp

lemma bad_tree_3: "bad_tree 3 = Some (Node 0 [Node 1 [], Node 2 []])"
  by code_simp

lemma bad_tree_4: "bad_tree 4 = Some (Node 0 [Node 3 [], Node 2 [Node 1 []]])"
  by code_simp

lemma bad_tree_5: "bad_tree 5 = Some (Node 0 [Node 3 [Node 4 []], Node 2 [Node 1 []]])"
  by code_simp

lemma bad_tree_6:
  "bad_tree 6 = Some (Node 0 [Node 3 [Node 4 []], Node 2 [Node 1 [], Node 5 []]])"
  by code_simp

lemma bad_tree_7:
  "bad_tree 7 = Some (Node 0 [Node 3 [Node 4 [Node 6 []]], Node 2 [Node 1 [], Node 5 []]])"
  by code_simp

lemma bad_tree_8:
  "bad_tree 8 =
     Some (Node 0 [Node 3 [Node 4 [Node 6 [], Node 7 []]], Node 2 [Node 1 [], Node 5 []]])"
  by code_simp

lemma gd_good_tree_upto_8: "map gd_good_tree [1..<9] = map good_tree [1..<9]"
  by code_simp

lemma good_wiring_upto_8: "list_all good_wiring_ok [1..<9]"
  by code_simp

lemma bad_wiring_upto_8: "list_all bad_wiring_ok [1..<9]"
  by code_simp

lemma gd_good_wiring_upto_8: "list_all gd_good_wiring_ok [1..<9]"
  by code_simp

lemma upto_8_cases:
  assumes "n \<in> {1..8::nat}"
  obtains "n = 1" | "n = 2" | "n = 3" | "n = 4" | "n = 5" | "n = 6" | "n = 7" | "n = 8"
  using assms by (auto simp: numeral_eq_Suc le_Suc_eq)

text \<open>
  Claim C5. For every \<open>N\<close> from 1 to 8 the good-locality builders of the local-departure
  and of the global-departure barrier wire exactly the arrival trees the specification
  lists (children in the order of the parent's slots). Node 0 is the root with a null
  parent; every other node's parent pointer is a slot of its parent's array, one node per
  slot; and in the local-departure variant the departure list of every node holds exactly
  the sense cells of its arrival children.
\<close>

theorem good_locality_literal_shapes:
  "good_tree 1 = Some (Node 0 []) \<and>
   good_tree 2 = Some (Node 0 [Node 1 []]) \<and>
   good_tree 3 = Some (Node 0 [Node 1 [], Node 2 []]) \<and>
   good_tree 4 = Some (Node 0 [Node 1 [], Node 2 [Node 3 []]]) \<and>
   good_tree 5 = Some (Node 0 [Node 4 [Node 1 []], Node 2 [Node 3 []]]) \<and>
   good_tree 6 = Some (Node 0 [Node 4 [Node 1 [], Node 5 []], Node 2 [Node 3 []]]) \<and>
   good_tree 7 = Some (Node 0 [Node 4 [Node 1 [], Node 5 []], Node 2 [Node 3 [], Node 6 []]]) \<and>
   good_tree 8 =
     Some (Node 0 [Node 4 [Node 1 [], Node 5 []], Node 2 [Node 3 [Node 7 []], Node 6 []]]) \<and>
   map gd_good_tree [1..<9] = map good_tree [1..<9] \<and>
   list_all good_wiring_ok [1..<9] \<and>
   list_all gd_good_wiring_ok [1..<9]"
  by (simp only: good_tree_1 good_tree_2 good_tree_3 good_tree_4 good_tree_5 good_tree_6
      good_tree_7 good_tree_8 gd_good_tree_upto_8 good_wiring_upto_8 gd_good_wiring_upto_8
      simp_thms)

subsection \<open>Good against bad locality\<close>

lemma shapes_compared:
  "shape_class (Node 0 [Node 1 [], Node 2 [Node 3 []]]) =
     shape_class (Node 0 [Node 3 [], Node 2 [Node 1 []]])"
  "shape_class (Node 0 [Node 4 [Node 1 []], Node 2 [Node 3 []]]) =
     shape_class (Node 0 [Node 3 [Node 4 []], Node 2 [Node 1 []]])"
  "shape_class (Node 0 [Node 4 [Node 1 [], Node 5 []], Node 2 [Node 3 []]]) =
     shape_class (Node 0 [Node 3 [Node 4 []], Node 2 [Node 1 [], Node 5 []]])"
  "shape_class (Node 0 [Node 4 [Node 1 [], Node 5 []], Node 2 [Node 3 [], Node 6 []]]) \<noteq>
     shape_class (Node 0 [Node 3 [Node 4 [Node 6 []]], Node 2 [Node 1 [], Node 5 []]])"
  "shape_class (Node 0 [Node 4 [Node 1 [], Node 5 []], Node 2 [Node 3 [Node 7 []], Node 6 []]]) \<noteq>
     shape_class (Node 0 [Node 3 [Node 4 [Node 6 [], Node 7 []]], Node 2 [Node 1 [], Node 5 []]])"
  by code_simp+

lemma layouts_compared_at:
  "layouts_compared 1" "layouts_compared 2" "layouts_compared 3" "layouts_compared 4"
  "layouts_compared 5" "layouts_compared 6" "layouts_compared 7" "layouts_compared 8"
  by code_simp+

text \<open>
  Claim C6, as amended. For every \<open>N\<close> from 1 to 8 both layouts are binary trees on the
  nodes \<open>0, \<dots>, N - 1\<close> with root 0 and \<open>N - 1\<close> edges. The good-locality tree has depth
  \<open>\<lfloor>log\<^sub>2 N\<rfloor>\<close>, and so has the bad-locality tree except for \<open>N = 7\<close>, where its depth is
  3. The two trees have the same shape class exactly for \<open>N \<le> 6\<close>.
\<close>

theorem layouts_shape_comparison:
  "\<forall>n\<in>{1..8}. \<exists>g b.
      good_tree n = Some g \<and> bad_tree n = Some b \<and>
      binary_tree_on n g \<and> binary_tree_on n b \<and>
      depth g = floor_log2 n \<and>
      depth b = (if n = 7 then 3 else floor_log2 n) \<and>
      (shape_class g = shape_class b) = (n \<le> 6)"
proof
  fix n :: nat
  assume "n \<in> {1..8}"
  then have "layouts_compared n"
    by (rule upto_8_cases) (simp_all only: layouts_compared_at)
  then show "\<exists>g b.
      good_tree n = Some g \<and> bad_tree n = Some b \<and>
      binary_tree_on n g \<and> binary_tree_on n b \<and>
      depth g = floor_log2 n \<and>
      depth b = (if n = 7 then 3 else floor_log2 n) \<and>
      (shape_class g = shape_class b) = (n \<le> 6)"
    by (auto simp: layouts_compared_def split: option.splits)
qed

theorem layouts_shape_comparison_witness:
  "\<exists>g b. good_tree 7 = Some g \<and> bad_tree 7 = Some b \<and>
          binary_tree_on 7 g \<and> binary_tree_on 7 b \<and>
          depth g = 2 \<and> depth b = 3 \<and> shape_class g \<noteq> shape_class b"
proof -
  have "(7::nat) \<in> {1..8}" by simp
  moreover have "floor_log2 7 = 2" by code_simp
  ultimately show ?thesis
    using layouts_shape_comparison by fastforce
qed

text \<open>
  The claim as stated fails at \<open>N = 7\<close>: the good-locality tree is the full binary tree of
  depth 2, the bad-locality tree has the path 0, 3, 4, 6 and depth 3, so the shape
  classes differ; and \<open>\<lceil>log\<^sub>2 7\<rceil> = 3\<close> is not the depth of the good-locality tree.
\<close>

theorem layouts_shape_counterexample:
  "map_option shape_class (good_tree 7) \<noteq> map_option shape_class (bad_tree 7) \<and>
   map_option depth (good_tree 7) = Some 2 \<and>
   map_option depth (bad_tree 7) = Some 3 \<and>
   ceil_log2 7 = 3"
proof -
  have "ceil_log2 7 = 3" by code_simp
  then show ?thesis
    by (simp add: good_tree_7 bad_tree_7 shapes_compared)
qed

subsection \<open>Unsupported participant counts\<close>

lemma builders_abort:
  assumes "n < 1 \<or> 8 < n"
  shows "static_tree_layout_good_locality n = Inl Assertion_Failed \<and>
         static_tree_layout_bad_locality n = Inl Assertion_Failed \<and>
         static_tree_global_departure_layout_good_locality n = Inl Assertion_Failed"
  using assms
  by (auto simp: static_tree_layout_good_locality_def good_locality_switch_def
      static_tree_layout_bad_locality_def bad_locality_switch_def
      static_tree_global_departure_layout_good_locality_def gd_good_locality_switch_def)

text \<open>
  Claim C8. For a participant count outside 1..8 each of the three builders ends in the
  failed assertion of the switch's default case and returns no tree.
\<close>

theorem builders_abort_outside_range:
  assumes "n < 1 \<or> 8 < n"
  shows "static_tree_layout_good_locality n = Inl Assertion_Failed \<and>
         static_tree_layout_bad_locality n = Inl Assertion_Failed \<and>
         static_tree_global_departure_layout_good_locality n = Inl Assertion_Failed"
  using assms by (rule builders_abort)

theorem builders_abort_outside_range_witness:
  "static_tree_layout_good_locality 9 = Inl Assertion_Failed \<and>
   static_tree_layout_bad_locality 9 = Inl Assertion_Failed \<and>
   static_tree_global_departure_layout_good_locality 9 = Inl Assertion_Failed"
  using builders_abort_outside_range [of 9] by simp

section \<open>Properties of the confidence interval\<close>

lemma size_minus_one_pos: "0 < n \<Longrightarrow> n < 2 ^ 64 \<Longrightarrow> size_minus_one n = n - 1"
  unfolding size_minus_one_def
proof -
  assume a: "0 < n" "n < 2 ^ 64"
  have "n + (2 ^ 64 - 1) = (n - 1) + 2 ^ 64" using a by simp
  then have "(n + (2 ^ 64 - 1)) mod 2 ^ 64 = (n - 1) mod 2 ^ 64" by (metis mod_add_self2)
  also have "\<dots> = n - 1" using a by simp
  finally show "(n + (2 ^ 64 - 1)) mod 2 ^ 64 = n - 1" .
qed

lemma size_minus_one_0: "size_minus_one 0 = 2 ^ 64 - 1"
  by (simp add: size_minus_one_def)

lemma length_table: "length t_critical_value = 30"
  by (simp add: t_critical_value_def)

lemma mean_returns:
  assumes "2 \<le> length (samples ci)" and "length (samples ci) \<le> 30"
  shows "\<exists>r. mean ci = Inr r"
proof -
  let ?n = "length (samples ci)"
  have n: "0 < ?n" "?n < 2 ^ 64" using assms by (simp_all del: length_greater_0_conv)
  have p: "size_minus_one ?n = ?n - 1" using n by (rule size_minus_one_pos)
  have "?n \<noteq> 0" using assms by linarith
  then have c1: "(?n = 0) = False" by blast
  have "?n - 1 \<noteq> 0" using assms by linarith
  then have c2: "(?n - 1 = 0) = False" by blast
  have "\<not> 30 \<le> ?n - 1" using assms by linarith
  then have c3: "(length t_critical_value \<le> ?n - 1) = False"
    by (simp only: length_table)
  show ?thesis
    unfolding mean_def Let_def
    by (simp only: p c1 c2 c3 if_False) blast
qed

subsection \<open>The critical value that \<^verbatim>\<open>mean()\<close> reads\<close>









subsection \<open>Where \<^verbatim>\<open>mean()\<close> is defined\<close>

lemma samples_fold_add: "samples (fold add vs ci) = samples ci @ vs"
  by (induction vs arbitrary: ci) (simp_all add: add_def)

lemma mean_empty: "length (samples ci) = 0 \<Longrightarrow> mean ci = Inl Not_A_Number"
  by (simp add: mean_def)

lemma mean_single: "length (samples ci) = 1 \<Longrightarrow> mean ci = Inl Not_A_Number"
  by (simp add: mean_def Let_def size_minus_one_def)

lemma mean_too_many:
  assumes "30 < length (samples ci)" and "length (samples ci) < 2 ^ 64"
  shows "mean ci = Inl Out_Of_Bounds"
proof -
  let ?n = "length (samples ci)"
  have "0 < ?n" using assms by linarith
  then have p: "size_minus_one ?n = ?n - 1" using assms(2) by (rule size_minus_one_pos)
  have "?n \<noteq> 0" using assms by linarith
  then have c1: "(?n = 0) = False" by blast
  have "?n - 1 \<noteq> 0" using assms by linarith
  then have c2: "(?n - 1 = 0) = False" by blast
  have "30 \<le> ?n - 1" using assms by linarith
  then have c3: "(length t_critical_value \<le> ?n - 1) = True"
    by (simp only: length_table)
  show ?thesis
    unfolding mean_def Let_def
    by (simp only: p c1 c2 c3 if_False if_True)
qed

text \<open>
  Claim C9, as amended. \<^verbatim>\<open>add\<close> appends whatever the number of samples. With \<open>n\<close>
  samples \<^verbatim>\<open>mean()\<close> reads the 30-entry table at position \<open>n - 1\<close> computed on
  \<^verbatim>\<open>size_t\<close>: the read is in bounds exactly for \<open>1 \<le> n \<le> 30\<close>, and past the end for
  \<open>n > 30\<close>. The divisor of the variance is zero exactly for \<open>n = 1\<close>; for \<open>n = 0\<close> it is
  the divisor of the mean that is zero. \<^verbatim>\<open>mean()\<close> returns an interval exactly for
  \<open>2 \<le> n \<le> 30\<close>.
\<close>

theorem mean_defined_iff:
  assumes "length (samples ci) < 2 ^ 64"
  shows "samples (fold add vs ci) = samples ci @ vs \<and>
         (size_minus_one (length (samples ci)) < length t_critical_value
            \<longleftrightarrow> 1 \<le> length (samples ci) \<and> length (samples ci) \<le> 30) \<and>
         (30 < length (samples ci) \<longrightarrow> mean ci = Inl Out_Of_Bounds) \<and>
         (size_minus_one (length (samples ci)) = 0 \<longleftrightarrow> length (samples ci) = 1) \<and>
         (length (samples ci) < 2 \<longrightarrow> mean ci = Inl Not_A_Number) \<and>
         ((\<exists>r. mean ci = Inr r) \<longleftrightarrow> 2 \<le> length (samples ci) \<and> length (samples ci) \<le> 30)"
proof -
  let ?n = "length (samples ci)"
  have p: "0 < ?n \<Longrightarrow> size_minus_one ?n = ?n - 1"
    using assms by (rule size_minus_one_pos [rotated])
  have z: "?n = 0 \<Longrightarrow> size_minus_one ?n = 2 ^ 64 - 1"
    by (simp only: size_minus_one_0)
  have i: "size_minus_one ?n < length t_critical_value \<longleftrightarrow> 1 \<le> ?n \<and> ?n \<le> 30"
  proof (cases "?n = 0")
    case True
    then show ?thesis using z by (simp add: length_table)
  next
    case False
    then have "size_minus_one ?n = ?n - 1" using p by blast
    then show ?thesis using False by (simp only: length_table) linarith
  qed
  have d: "size_minus_one ?n = 0 \<longleftrightarrow> ?n = 1"
  proof (cases "?n = 0")
    case True
    then show ?thesis using z by simp
  next
    case False
    then have "size_minus_one ?n = ?n - 1" using p by blast
    then show ?thesis using False by linarith
  qed
  have o: "30 < ?n \<longrightarrow> mean ci = Inl Out_Of_Bounds"
    using assms mean_too_many by blast
  have u: "?n < 2 \<longrightarrow> mean ci = Inl Not_A_Number"
  proof
    assume "?n < 2"
    then have "?n = 0 \<or> ?n = 1" by linarith
    then show "mean ci = Inl Not_A_Number" using mean_empty mean_single by blast
  qed
  have r: "(\<exists>r. mean ci = Inr r) \<longleftrightarrow> 2 \<le> ?n \<and> ?n \<le> 30"
  proof
    assume "\<exists>r. mean ci = Inr r"
    then show "2 \<le> ?n \<and> ?n \<le> 30"
      using o u by (metis Inl_Inr_False not_le_imp_less)
  next
    assume "2 \<le> ?n \<and> ?n \<le> 30"
    then show "\<exists>r. mean ci = Inr r" using mean_returns by blast
  qed
  show ?thesis using samples_fold_add i d o u r by blast
qed

theorem mean_defined_iff_witness:
  "samples (fold add [3, 4] (confidence_interval_new 30)) = [3, 4] \<and>
   size_minus_one 2 < length t_critical_value \<and>
   size_minus_one 2 \<noteq> 0 \<and>
   (\<exists>r. mean (fold add [3, 4] (confidence_interval_new 30)) = Inr r)"
proof -
  let ?ci = "fold add [3, 4] (confidence_interval_new 30)"
  have s: "samples ?ci = [3, 4]"
    by (simp add: add_def confidence_interval_new_def)
  have l: "length (samples ?ci) = 2"
    by (simp only: s) simp
  have a: "length (samples ?ci) < 2 ^ 64"
    by (simp only: l) simp
  note t = mean_defined_iff [OF a, of "[]", unfolded l]
  have "size_minus_one 2 < length t_critical_value" using t by simp
  moreover have "size_minus_one 2 \<noteq> 0" using t by simp
  moreover have "\<exists>r. mean ?ci = Inr r" using t by simp
  ultimately show ?thesis using s by blast
qed

text \<open>
  The claim as stated fails for the empty accumulator: there the divisor of the variance,
  \<^verbatim>\<open>(double)(samples.size() - 1)\<close>, is \<open>2 ^ 64 - 1\<close>, not zero.
\<close>

theorem variance_divisor_counterexample:
  "size_minus_one (length (samples (confidence_interval_new 30))) = 2 ^ 64 - 1 \<and>
   size_minus_one (length (samples (confidence_interval_new 30))) \<noteq> 0"
  by (simp add: confidence_interval_new_def size_minus_one_def)

section \<open>The operations of one \<^verbatim>\<open>await\<close>\<close>

lemma follows_and_then: "follows (and_then f g) X = follows f (follows g X)"
  by (rule ext) (simp add: follows_def and_then_def split: option.splits)

lemma follows_Some: "follows Some X = X"
  by (rule ext) (simp add: follows_def)

lemma follows_conj: "follows f (\<lambda>rest. X rest \<and> B) tr = (follows f X tr \<and> B)"
  by (simp add: follows_def split: option.splits)

lemma follows_False: "follows f (\<lambda>rest. False) tr = False"
  by (simp add: follows_def split: option.splits)

lemma reads_all_iff: "(f tr = Some []) = follows f (\<lambda>rest. rest = []) tr"
  by (simp add: follows_def split: option.splits)

lemma follows_for_each_Nil: "follows (for_each f []) X = X"
  by (rule ext) (simp add: follows_def)

lemma follows_for_each_Cons:
  "follows (for_each f (x # xs)) X = follows (f x) (follows (for_each f xs) X)"
  by (rule ext) (simp add: follows_def split: option.splits)

lemma completes_Return: "completes (Return x) tr r = (tr = [] \<and> r = x)"
  by (cases tr) (auto simp: completes_def)

lemma completes_Spin:
  "completes (Spin c Relaxed v p) tr r =
     follows (spec_spin_relaxed c v) (\<lambda>rest. completes p rest r) tr"
proof (induction tr)
  case Nil
  then show ?case by (simp add: completes_def follows_def)
next
  case (Cons e tr)
  show ?case
  proof (cases e)
    case (Ev_Load c' ord b)
    then show ?thesis
      using Cons.IH
      by (cases ord) (auto simp: completes_def follows_def)
  qed (simp_all add: completes_def follows_def)
qed

lemma completes_Load_Acquire:
  "completes (Load c Acquire (\<lambda>_. p)) tr r =
     follows (spec_acquire_load c) (\<lambda>rest. completes p rest r) tr"
proof (cases tr)
  case Nil
  then show ?thesis by (simp add: completes_def follows_def)
next
  case (Cons e tr')
  then show ?thesis
  proof (cases e)
    case (Ev_Load c' ord b)
    then show ?thesis
      using Cons by (cases ord) (auto simp: completes_def follows_def)
  qed (simp_all add: completes_def follows_def)
qed

lemma completes_Store_Release:
  "completes (Store c v Release p) tr r =
     follows (spec_release_store c v) (\<lambda>rest. completes p rest r) tr"
proof (cases tr)
  case Nil
  then show ?thesis by (simp add: completes_def follows_def)
next
  case (Cons e tr')
  then show ?thesis
  proof (cases e)
    case (Ev_Store c' b ord)
    then show ?thesis
      using Cons by (cases ord) (auto simp: completes_def follows_def)
  qed (simp_all add: completes_def follows_def)
qed

lemma completes_wait_for_children:
  "completes (wait_for_children i js ls p) tr r =
     follows (for_each (\<lambda>j. and_then (spec_spin_relaxed (Flag i j) ls)
                                      (spec_acquire_load (Flag i j))) js)
             (\<lambda>rest. completes p rest r) tr"
  by (induction js arbitrary: tr)
     (simp_all add: follows_for_each_Nil follows_for_each_Cons follows_and_then
        completes_Spin completes_Load_Acquire)

lemma completes_gd_wait_for_children:
  "completes (gd_wait_for_children i js ls p) tr r =
     follows (for_each (\<lambda>j. and_then (spec_spin_relaxed (Flag i j) ls)
                                      (spec_acquire_load (Flag i j))) js)
             (\<lambda>rest. completes p rest r) tr"
  by (induction js arbitrary: tr)
     (simp_all add: follows_for_each_Nil follows_for_each_Cons follows_and_then
        completes_Spin completes_Load_Acquire)

lemma completes_signal_departure:
  "completes (signal_departure ds ls p) tr r =
     follows (for_each (\<lambda>d. spec_release_store (Node_Sense d) ls) ds)
             (\<lambda>rest. completes p rest r) tr"
  by (induction ds arbitrary: tr)
     (simp_all add: follows_for_each_Nil follows_for_each_Cons completes_Store_Release)

lemma completes_static_tree_await:
  "completes (static_tree_await n i) tr r = spec_static_tree_await n i tr r"
  by (cases "arrival_parent n")
     (auto simp: static_tree_await_def spec_static_tree_await_def spec_arrival_phase_def
        completes_wait_for_children completes_signal_departure completes_Store_Release
        completes_Spin completes_Load_Acquire completes_Return
        reads_all_iff follows_and_then follows_Some follows_conj follows_False)

lemma completes_global_departure_await:
  "completes (global_departure_await n i) tr r = spec_global_departure_await n i tr r"
  by (cases "gd_arrival_parent n")
     (auto simp: global_departure_await_def spec_global_departure_await_def
        spec_arrival_phase_def
        completes_gd_wait_for_children completes_Store_Release
        completes_Spin completes_Load_Acquire completes_Return
        reads_all_iff follows_and_then follows_Some follows_conj follows_False)

lemma completes_Fetch_Add:
  "completes (Fetch_Add d ord k) tr r =
     (case tr of Ev_Fetch_Add d' ord' old # rest \<Rightarrow>
                   d' = d \<and> ord' = ord \<and> completes (k old) rest r
               | _ \<Rightarrow> False)"
  by (auto simp: completes_def split: list.splits event.splits)

lemma completes_Load_Counter_Acquire:
  "completes (Load_Counter Acquire (\<lambda>_. p)) tr r =
     follows spec_acquire_load_counter (\<lambda>rest. completes p rest r) tr"
proof (cases tr)
  case Nil
  then show ?thesis by (simp add: completes_def follows_def)
next
  case (Cons e tr')
  then show ?thesis
  proof (cases e)
    case (Ev_Load_Counter ord v)
    then show ?thesis
      using Cons by (cases ord) (auto simp: completes_def follows_def)
  qed (simp_all add: completes_def follows_def)
qed

lemma completes_Store_Counter_Relaxed:
  "completes (Store_Counter v Relaxed p) tr r =
     follows (spec_relaxed_store_counter v) (\<lambda>rest. completes p rest r) tr"
proof (cases tr)
  case Nil
  then show ?thesis by (simp add: completes_def follows_def)
next
  case (Cons e tr')
  then show ?thesis
  proof (cases e)
    case (Ev_Store_Counter v' ord)
    then show ?thesis
      using Cons by (cases ord) (auto simp: completes_def follows_def)
  qed (simp_all add: completes_def follows_def)
qed

lemma completes_await_release_acquire:
  "completes (await_release_acquire N ls) tr r = spec_centralized_await N ls tr r"
proof (cases tr)
  case Nil
  then show ?thesis by (simp add: completes_def await_release_acquire_def)
next
  case (Cons e rest)
  show ?thesis
  proof (cases e)
    case (Ev_Fetch_Add d ord pre)
    show ?thesis
      unfolding Cons Ev_Fetch_Add await_release_acquire_def
      by (auto simp: completes_Fetch_Add completes_Load_Counter_Acquire
          completes_Store_Counter_Relaxed completes_Store_Release completes_Spin
          completes_Load_Acquire completes_Return reads_all_iff follows_and_then follows_conj
          follows_False)
  qed (simp_all add: Cons completes_def await_release_acquire_def)
qed

subsection \<open>The stores of a run\<close>

lemma stores_Spin:
  "completes (Spin c ord v p) tr r \<Longrightarrow>
   \<exists>rest. completes p rest r \<and> stores_of tr = stores_of rest"
proof (induction tr)
  case Nil
  then show ?case by (simp add: completes_def)
next
  case (Cons e tr)
  show ?case
  proof (cases e)
    case (Ev_Load c' ord' b)
    show ?thesis
    proof (cases "c' = c \<and> ord' = ord")
      case True
      show ?thesis
      proof (cases "b = v")
        case True
        then show ?thesis
          using Cons.prems Ev_Load \<open>c' = c \<and> ord' = ord\<close>
          by (auto simp: completes_def)
      next
        case False
        then have "completes (Spin c ord v p) tr r"
          using Cons.prems Ev_Load \<open>c' = c \<and> ord' = ord\<close> by (simp add: completes_def)
        then show ?thesis using Cons.IH Ev_Load by auto
      qed
    next
      case False
      then show ?thesis using Cons.prems Ev_Load by (auto simp: completes_def)
    qed
  qed (use Cons.prems in \<open>simp_all add: completes_def\<close>)
qed

lemma stores_Load:
  "completes (Load c ord k) tr r \<Longrightarrow>
   \<exists>b rest. completes (k b) rest r \<and> stores_of tr = stores_of rest"
  by (cases tr; cases "hd tr") (auto simp: completes_def split: if_splits)

lemma stores_Store:
  "completes (Store c v ord p) tr r \<Longrightarrow>
   \<exists>rest. completes p rest r \<and> stores_of tr = (c, v, ord) # stores_of rest"
  by (cases tr; cases "hd tr") (auto simp: completes_def split: if_splits)

lemma stores_wait_for_children:
  "completes (wait_for_children i js ls p) tr r \<Longrightarrow>
   \<exists>rest. completes p rest r \<and> stores_of tr = stores_of rest"
proof (induction js arbitrary: tr)
  case Nil
  then show ?case by auto
next
  case (Cons j js)
  from Cons.prems obtain t1 where
    t1: "completes (Load (Flag i j) Acquire (\<lambda>_. wait_for_children i js ls p)) t1 r"
      "stores_of tr = stores_of t1"
    using stores_Spin by fastforce
  from t1(1) obtain t2 where
    t2: "completes (wait_for_children i js ls p) t2 r" "stores_of t1 = stores_of t2"
    using stores_Load by fastforce
  from Cons.IH [OF t2(1)] t1(2) t2(2) show ?case by auto
qed

lemma stores_signal_departure:
  "completes (signal_departure ds ls p) tr r \<Longrightarrow>
   \<exists>rest. completes p rest r \<and>
          stores_of tr = map (\<lambda>d. (Node_Sense d, ls, Release)) ds @ stores_of rest"
proof (induction ds arbitrary: tr)
  case Nil
  then show ?case by auto
next
  case (Cons d ds)
  from Cons.prems obtain t1 where
    t1: "completes (signal_departure ds ls p) t1 r"
      "stores_of tr = (Node_Sense d, ls, Release) # stores_of t1"
    using stores_Store by fastforce
  from Cons.IH [OF t1(1)] t1(2) show ?case by auto
qed

lemma stores_static_tree_await:
  assumes "completes (static_tree_await n i) tr r"
  shows "stores_of tr =
           (case arrival_parent n of
              None \<Rightarrow> []
            | Some (p, j) \<Rightarrow> [(Flag p j, local_sense n, Release)]) @
           map (\<lambda>d. (Node_Sense d, local_sense n, Release)) (departure_children n)"
proof (cases "arrival_parent n")
  case None
  from assms obtain t1 where
    t1: "completes (signal_departure (departure_children n) (local_sense n)
           (Return (\<not> local_sense n))) t1 r" "stores_of tr = stores_of t1"
    unfolding static_tree_await_def None using stores_wait_for_children by fastforce
  from stores_signal_departure [OF t1(1)] obtain t2 where
    t2: "completes (Return (\<not> local_sense n)) t2 r"
      "stores_of t1 = map (\<lambda>d. (Node_Sense d, local_sense n, Release)) (departure_children n)
         @ stores_of t2"
    by blast
  have "t2 = []" using t2(1) by (simp add: completes_Return)
  then show ?thesis using None t1(2) t2(2) by simp
next
  case (Some pj)
  obtain p j where pj: "pj = (p, j)" by (cases pj)
  let ?ls = "local_sense n"
  from assms obtain t1 where
    t1: "completes (Store (Flag p j) ?ls Release
           (Spin (Node_Sense i) Relaxed ?ls
           (Load (Node_Sense i) Acquire (\<lambda>_.
            signal_departure (departure_children n) ?ls (Return (\<not> ?ls)))))) t1 r"
      "stores_of tr = stores_of t1"
    unfolding static_tree_await_def Some pj using stores_wait_for_children by fastforce
  from stores_Store [OF t1(1)] obtain t2 where
    t2: "completes (Spin (Node_Sense i) Relaxed ?ls
           (Load (Node_Sense i) Acquire (\<lambda>_.
            signal_departure (departure_children n) ?ls (Return (\<not> ?ls))))) t2 r"
      "stores_of t1 = (Flag p j, ?ls, Release) # stores_of t2"
    by blast
  from stores_Spin [OF t2(1)] obtain t3 where
    t3: "completes (Load (Node_Sense i) Acquire (\<lambda>_.
            signal_departure (departure_children n) ?ls (Return (\<not> ?ls)))) t3 r"
      "stores_of t2 = stores_of t3"
    by blast
  from stores_Load [OF t3(1)] obtain t4 where
    t4: "completes (signal_departure (departure_children n) ?ls (Return (\<not> ?ls))) t4 r"
      "stores_of t3 = stores_of t4"
    by blast
  from stores_signal_departure [OF t4(1)] obtain t5 where
    t5: "completes (Return (\<not> ?ls)) t5 r"
      "stores_of t4 = map (\<lambda>d. (Node_Sense d, ?ls, Release)) (departure_children n)
         @ stores_of t5"
    by blast
  have "t5 = []" using t5(1) by (simp add: completes_Return)
  then show ?thesis using Some pj t1(2) t2(2) t3(2) t4(2) t5(2) by simp
qed

lemma gd_wait_is_wait: "gd_wait_for_children i js ls p = wait_for_children i js ls p"
  by (induction js) simp_all

section \<open>Each \<^verbatim>\<open>await\<close> against the specification\<close>

text \<open>
  Claim C1. The \<^verbatim>\<open>await\<close> of the centralized barrier in its release/relaxed/acquire form
  (the first of the four bodies of the header, the one the barrier is run with here; the
  fourth has the same statements) performs, in order: the fetch-and-add of 1 on the
  counter with release order; if the value read plus 1 equals \<open>N\<close>, an acquire load of the
  counter, the relaxed store of 0 into the counter and the release store of the local
  sense into the sense; otherwise relaxed loads of the sense until one reads the local
  sense, then one acquire load of the sense. The caller's new local sense is the old one
  flipped. These are exactly its complete runs.
\<close>

theorem centralized_await_operations:
  "completes (await_release_acquire N ls) tr r = spec_centralized_await N ls tr r \<and>
   await_prefetch N ls = await_release_acquire N ls"
proof
  show "completes (await_release_acquire N ls) tr r = spec_centralized_await N ls tr r"
    by (rule completes_await_release_acquire)
  show "await_prefetch N ls = await_release_acquire N ls"
    by (simp add: await_prefetch_def await_release_acquire_def)
qed

text \<open>The releaser's run and a waiter's run with four threads.\<close>

theorem centralized_await_operations_witness:
  "completes (await_release_acquire 4 False)
     [Ev_Fetch_Add 1 Release 3, Ev_Load_Counter Acquire 4, Ev_Store_Counter 0 Relaxed,
      Ev_Store Barrier_Sense False Release] True \<and>
   completes (await_release_acquire 4 False)
     [Ev_Fetch_Add 1 Release 1, Ev_Load Barrier_Sense Relaxed True,
      Ev_Load Barrier_Sense Relaxed False, Ev_Load Barrier_Sense Acquire False] True \<and>
   \<not> completes (await_release_acquire 4 False)
     [Ev_Fetch_Add 1 Release 3, Ev_Store_Counter 0 Relaxed,
      Ev_Store Barrier_Sense False Release] True"
  using centralized_await_operations [of 4 False]
  by (simp add: and_then_def)

text \<open>
  Claim C2. For every node, the complete runs of \<^verbatim>\<open>await(n)\<close> of the static-tree
  barrier are exactly the sequences of section 4.2: for each arrival slot of the node, in
  order, relaxed loads until one reads the local sense and then one acquire load; with a
  parent, the release store of the local sense into the parent's slot, relaxed loads of
  the node's own sense cell until one reads the local sense, one acquire load; the
  release store of the local sense into the sense cell of every departure child; the
  new local sense is the old one flipped. The only stores of a run are the one into the
  parent's slot and those to the departure children: no arrival slot of the node is
  reset.
\<close>

theorem static_tree_await_operations:
  "completes (static_tree_await n i) tr r = spec_static_tree_await n i tr r \<and>
   (completes (static_tree_await n i) tr r \<longrightarrow>
      stores_of tr =
        (case arrival_parent n of
           None \<Rightarrow> []
         | Some (p, j) \<Rightarrow> [(Flag p j, local_sense n, Release)]) @
        map (\<lambda>d. (Node_Sense d, local_sense n, Release)) (departure_children n))"
  using stores_static_tree_await by (simp add: completes_static_tree_await)

text \<open>Node 2 of the good-locality tree on four nodes, with child 3 and parent slot 1 of node 0.\<close>

theorem static_tree_await_operations_witness:
  "completes
     (static_tree_await
        \<lparr>sense = True, arrival_parent = Some (0, 1), arrival_children_flag = [True],
         departure_children = [3], local_sense = False\<rparr> 2)
     [Ev_Load (Flag 2 0) Relaxed True, Ev_Load (Flag 2 0) Relaxed False,
      Ev_Load (Flag 2 0) Acquire False, Ev_Store (Flag 0 1) False Release,
      Ev_Load (Node_Sense 2) Relaxed False, Ev_Load (Node_Sense 2) Acquire False,
      Ev_Store (Node_Sense 3) False Release] True \<and>
   stores_of
     [Ev_Load (Flag 2 0) Relaxed True, Ev_Load (Flag 2 0) Relaxed False,
      Ev_Load (Flag 2 0) Acquire False, Ev_Store (Flag 0 1) False Release,
      Ev_Load (Node_Sense 2) Relaxed False, Ev_Load (Node_Sense 2) Acquire False,
      Ev_Store (Node_Sense 3) False Release] =
     [(Flag 0 1, False, Release), (Node_Sense 3, False, Release)]"
  using static_tree_await_operations
    [of "\<lparr>sense = True, arrival_parent = Some (0, 1), arrival_children_flag = [True],
          departure_children = [3], local_sense = False\<rparr>" 2
        "[Ev_Load (Flag 2 0) Relaxed True, Ev_Load (Flag 2 0) Relaxed False,
          Ev_Load (Flag 2 0) Acquire False, Ev_Store (Flag 0 1) False Release,
          Ev_Load (Node_Sense 2) Relaxed False, Ev_Load (Node_Sense 2) Acquire False,
          Ev_Store (Node_Sense 3) False Release]" True]
  by (simp add: spec_static_tree_await_def spec_arrival_phase_def and_then_def)

text \<open>
  Claim C3. The complete runs of \<^verbatim>\<open>await(n)\<close> of the global-departure barrier are
  exactly the sequences of section 4.3: the arrival phase of section 4.2 (the arrival
  loop is that of the local-departure barrier); then, for a node with a parent, the
  release store into the parent's slot, relaxed loads of the global sense until one reads
  the local sense and one acquire load; for the root, the release store of the local
  sense into the global sense; the new local sense is the old one flipped.
\<close>

theorem global_departure_await_operations:
  "completes (global_departure_await n i) tr r = spec_global_departure_await n i tr r \<and>
   gd_wait_for_children i js ls (p :: bool prog) = wait_for_children i js ls p"
  by (simp add: completes_global_departure_await gd_wait_is_wait)

text \<open>The root of the tree on two nodes, and its child.\<close>

theorem global_departure_await_operations_witness:
  "completes
     (global_departure_await
        \<lparr>gd_arrival_parent = None, gd_arrival_children_flag = [True],
         gd_local_sense = False\<rparr> 0)
     [Ev_Load (Flag 0 0) Relaxed False, Ev_Load (Flag 0 0) Acquire False,
      Ev_Store Barrier_Sense False Release] True \<and>
   completes
     (global_departure_await
        \<lparr>gd_arrival_parent = Some (0, 0), gd_arrival_children_flag = [],
         gd_local_sense = False\<rparr> 1)
     [Ev_Store (Flag 0 0) False Release, Ev_Load Barrier_Sense Relaxed True,
      Ev_Load Barrier_Sense Relaxed False, Ev_Load Barrier_Sense Acquire False] True"
  using
    global_departure_await_operations
      [of "\<lparr>gd_arrival_parent = None, gd_arrival_children_flag = [True],
            gd_local_sense = False\<rparr>" 0
          "[Ev_Load (Flag 0 0) Relaxed False, Ev_Load (Flag 0 0) Acquire False,
            Ev_Store Barrier_Sense False Release]" True]
    global_departure_await_operations
      [of "\<lparr>gd_arrival_parent = Some (0, 0), gd_arrival_children_flag = [],
            gd_local_sense = False\<rparr>" 1
          "[Ev_Store (Flag 0 0) False Release, Ev_Load Barrier_Sense Relaxed True,
            Ev_Load Barrier_Sense Relaxed False, Ev_Load Barrier_Sense Acquire False]" True]
  by (simp add: spec_global_departure_await_def spec_arrival_phase_def and_then_def)

section \<open>Steps of the system\<close>

lemma length_sys_step: "length (threads (snd (sys_step body t s))) = length (threads s)"
  by (simp add: sys_step_def split: prod.splits)

lemma length_run: "length (threads (run body sched s)) = length (threads s)"
  by (induction sched arbitrary: s) (simp_all add: length_sys_step)

lemma sys_step_other:
  "u \<noteq> t \<Longrightarrow> threads (snd (sys_step body t s)) ! u = threads s ! u"
  by (simp add: sys_step_def split: prod.splits)

lemma sys_step_self:
  "t < length (threads s) \<Longrightarrow>
   threads (snd (sys_step body t s)) ! t = snd (snd (thread_step body t (mem s) (threads s ! t)))"
  by (simp add: sys_step_def split: prod.splits)

lemma sys_step_mem:
  "t < length (threads s) \<Longrightarrow>
   mem (snd (sys_step body t s)) = fst (snd (thread_step body t (mem s) (threads s ! t)))"
  by (simp add: sys_step_def split: prod.splits)

lemma sys_step_label:
  "t < length (threads s) \<Longrightarrow>
   fst (sys_step body t s) = fst (thread_step body t (mem s) (threads s ! t))"
  by (simp add: sys_step_def split: prod.splits)

lemma sys_step_invalid: "\<not> t < length (threads s) \<Longrightarrow> sys_step body t s = (Skip, s)"
  by (simp add: sys_step_def)

text \<open>An invariant of every step holds after every schedule.\<close>

lemma run_invariant:
  assumes "P s" and "\<And>s t. P s \<Longrightarrow> P (snd (sys_step body t s))"
  shows "P (run body sched s)"
  using assms(1) by (induction sched arbitrary: s) (simp_all add: assms(2))

subsection \<open>Results and cells of a program\<close>

lemma results_of_advance: "results_of (advance m p) \<subseteq> results_of p"
  by (cases p) auto

lemma cells_of_advance: "cells_of (advance m p) \<subseteq> cells_of p"
  by (cases p) auto

lemma cell_of_next_event:
  "next_event m p = Some e \<Longrightarrow> cell_of e = Some c \<Longrightarrow> c \<in> cells_of p"
  by (cases p) auto

lemma next_event_None: "next_event m p = None \<Longrightarrow> \<exists>x. p = Return x"
  by (cases p) auto

text \<open>The operation a program performs on a memory is one that \<open>replay1\<close> accepts of it.\<close>

lemma replay1_next_event: "next_event m p = Some e \<Longrightarrow> replay1 p e = Some (advance m p)"
  by (cases p) auto

lemma apply_event_other:
  "cell_of e \<noteq> Some c \<Longrightarrow> flags (apply_event e m) c = flags m c"
  by (cases e) auto

subsection \<open>Parity of the local sense\<close>

lemma thread_step_parity:
  assumes "flips body" and "parity_ok th"
  shows "parity_ok (snd (snd (thread_step body t m th)))"
proof (cases "pending th")
  case None
  have "results_of (body t (sense_of th)) \<subseteq> {\<not> sense_of th}"
    using assms(1) by (simp add: flips_def)
  then show ?thesis
    using assms(2) None by (simp add: thread_step_def parity_ok_def)
next
  case (Some p)
  show ?thesis
  proof (cases "next_event m p")
    case None
    then obtain x where x: "p = Return x" using next_event_None by blast
    then show ?thesis
      using assms Some by (simp add: thread_step_def parity_ok_def)
  next
    case (Some e)
    then show ?thesis
      using assms \<open>pending th = Some p\<close> results_of_advance [of m p]
      by (auto simp: thread_step_def parity_ok_def)
  qed
qed

lemma sys_step_parity:
  assumes "flips body" and "\<forall>u < length (threads s). parity_ok (threads s ! u)"
  shows "\<forall>u < length (threads (snd (sys_step body t s))).
           parity_ok (threads (snd (sys_step body t s)) ! u)"
proof (intro allI impI)
  fix u
  assume "u < length (threads (snd (sys_step body t s)))"
  then have u: "u < length (threads s)" by (simp add: length_sys_step)
  show "parity_ok (threads (snd (sys_step body t s)) ! u)"
  proof (cases "u = t")
    case True
    then show ?thesis
      using u assms thread_step_parity by (simp add: sys_step_self)
  next
    case False
    then show ?thesis using u assms(2) by (simp add: sys_step_other)
  qed
qed

lemma run_parity:
  assumes "flips body" and "\<forall>u < length (threads s). parity_ok (threads s ! u)"
  shows "\<forall>u < length (threads s). parity_ok (threads (run body sched s) ! u)"
proof -
  have "\<forall>u < length (threads (run body sched s)). parity_ok (threads (run body sched s) ! u)"
    using assms(2)
    by (rule run_invariant [where P = "\<lambda>s. \<forall>u < length (threads s). parity_ok (threads s ! u)"])
       (rule sys_step_parity [OF assms(1)])
  then show ?thesis by (simp add: length_run)
qed

lemma results_wait_for_children:
  "results_of (wait_for_children i js ls p) = results_of p"
  by (induction js) simp_all

lemma results_gd_wait_for_children:
  "results_of (gd_wait_for_children i js ls p) = results_of p"
  by (induction js) simp_all

lemma results_signal_departure:
  "results_of (signal_departure ds ls p) = results_of p"
  by (induction ds) simp_all

lemma flips_centralized: "flips (centralized_body N)"
  by (auto simp: flips_def centralized_body_def await_release_acquire_def split: if_splits)

lemma flips_static_tree: "flips (static_tree_body nodes)"
  by (auto simp: flips_def static_tree_body_def static_tree_await_def
      results_wait_for_children results_signal_departure split: option.splits)

lemma flips_global_departure: "flips (global_departure_body nodes)"
  by (auto simp: flips_def global_departure_body_def global_departure_await_def
      results_gd_wait_for_children split: option.splits)

lemma parity_new_thread: "parity_ok new_thread"
  by (simp add: parity_ok_def new_thread_def)

subsection \<open>A cell that no thread's program names\<close>

lemma thread_step_cell_free:
  assumes "\<forall>ls. c \<notin> cells_of (body t ls)"
    and "\<forall>p. pending th = Some p \<longrightarrow> c \<notin> cells_of p"
  shows "(\<forall>p. pending (snd (snd (thread_step body t m th))) = Some p \<longrightarrow> c \<notin> cells_of p) \<and>
         \<not> touches c (fst (thread_step body t m th)) \<and>
         flags (fst (snd (thread_step body t m th))) c = flags m c"
proof (cases "pending th")
  case None
  then show ?thesis
    using assms(1) by (simp add: thread_step_def touches_def)
next
  case (Some p)
  then have p: "c \<notin> cells_of p" using assms(2) by simp
  show ?thesis
  proof (cases "next_event m p")
    case None
    then obtain x where x: "p = Return x" using next_event_None by blast
    then show ?thesis
      using \<open>pending th = Some p\<close> by (simp add: thread_step_def touches_def)
  next
    case (Some e)
    have e: "cell_of e \<noteq> Some c"
      using Some p cell_of_next_event by blast
    have "c \<notin> cells_of (advance m p)"
      using p cells_of_advance by blast
    then show ?thesis
      using Some \<open>pending th = Some p\<close> e
      by (simp add: thread_step_def touches_def apply_event_other)
  qed
qed

lemma sys_step_cell_free:
  assumes "never_names c body (length (threads s))" and "cell_free c s"
  shows "cell_free c (snd (sys_step body t s)) \<and>
         \<not> touches c (fst (sys_step body t s)) \<and>
         flags (mem (snd (sys_step body t s))) c = flags (mem s) c"
proof (cases "t < length (threads s)")
  case False
  then show ?thesis using assms(2) by (simp add: sys_step_invalid touches_def)
next
  case True
  have b: "\<forall>ls. c \<notin> cells_of (body t ls)"
    using assms(1) True by (simp add: never_names_def)
  have q: "\<forall>p. pending (threads s ! t) = Some p \<longrightarrow> c \<notin> cells_of p"
    using assms(2) True by (simp add: cell_free_def)
  note st = thread_step_cell_free [of c body t "threads s ! t" "mem s", OF b q]
  have "cell_free c (snd (sys_step body t s))"
    unfolding cell_free_def
  proof (intro allI impI)
    fix u p
    assume u: "u < length (threads (snd (sys_step body t s)))"
      and pu: "pending (threads (snd (sys_step body t s)) ! u) = Some p"
    from u have u': "u < length (threads s)" by (simp add: length_sys_step)
    show "c \<notin> cells_of p"
    proof (cases "u = t")
      case True
      then show ?thesis using st pu \<open>t < length (threads s)\<close> by (simp add: sys_step_self)
    next
      case False
      then show ?thesis using assms(2) pu u' by (simp add: sys_step_other cell_free_def)
    qed
  qed
  then show ?thesis
    using st True by (simp add: sys_step_label sys_step_mem)
qed

lemma run_cell_free:
  assumes "never_names c body (length (threads s))" and "cell_free c s"
  shows "flags (mem (run body sched s)) c = flags (mem s) c \<and>
         list_all (\<lambda>(t, l). \<not> touches c l) (trace_of body sched s)"
  using assms
proof (induction sched arbitrary: s)
  case Nil
  then show ?case by simp
next
  case (Cons t ts)
  note st = sys_step_cell_free [OF Cons.prems, of t]
  have n: "never_names c body (length (threads (snd (sys_step body t s))))"
    using Cons.prems(1) by (simp add: length_sys_step)
  show ?case
    using Cons.IH [OF n] st by simp
qed

lemma cells_wait_for_children:
  "cells_of (wait_for_children i js ls p) = Flag i ` set js \<union> cells_of p"
  by (induction js) auto

lemma cells_signal_departure:
  "cells_of (signal_departure ds ls p) = Node_Sense ` set ds \<union> cells_of p"
  by (induction ds) auto

lemma cells_static_tree_await:
  "cells_of (static_tree_await n i) =
     Flag i ` {0..<length (arrival_children_flag n)} \<union>
     (case arrival_parent n of None \<Rightarrow> {} | Some (p, j) \<Rightarrow> {Flag p j, Node_Sense i}) \<union>
     Node_Sense ` set (departure_children n)"
  by (auto simp: static_tree_await_def cells_wait_for_children cells_signal_departure
      split: option.splits)

lemma root_sense_never_named:
  assumes "root_sense_unreferenced nodes"
  shows "never_names (Node_Sense 0) (static_tree_body nodes) (length nodes)"
  unfolding never_names_def
proof (intro allI impI)
  fix t ls
  assume t: "t < length nodes"
  have d: "0 \<notin> set (departure_children (nodes ! t))"
    using assms t by (simp add: root_sense_unreferenced_def list_all_length)
  have r: "arrival_parent (nodes ! 0) = None"
    using assms by (simp add: root_sense_unreferenced_def)
  show "Node_Sense 0 \<notin> cells_of (static_tree_body nodes t ls)"
    using d r
    by (cases "t = 0")
       (auto simp: static_tree_body_def cells_static_tree_await split: option.splits)
qed

lemma cell_free_init: "cell_free c (static_tree_init nodes)"
  by (simp add: cell_free_def static_tree_init_def new_thread_def)

lemma root_sense_in_runs:
  assumes "root_sense_unreferenced nodes"
  shows "flags (mem (run (static_tree_body nodes) sched (static_tree_init nodes))) (Node_Sense 0) =
           sense (nodes ! 0) \<and>
         list_all (\<lambda>(t, l). \<not> touches (Node_Sense 0) l)
           (trace_of (static_tree_body nodes) sched (static_tree_init nodes))"
proof -
  have l: "length (threads (static_tree_init nodes)) = length nodes"
    by (simp add: static_tree_init_def)
  have n: "never_names (Node_Sense 0) (static_tree_body nodes)
             (length (threads (static_tree_init nodes)))"
    using root_sense_never_named [OF assms] by (simp only: l)
  have "nodes \<noteq> []" using assms by (simp add: root_sense_unreferenced_def)
  then have "flags (mem (static_tree_init nodes)) (Node_Sense 0) = sense (nodes ! 0)"
    by (simp add: static_tree_init_def memory_of_def)
  then show ?thesis
    using run_cell_free [OF n cell_free_init, of sched] by simp
qed

subsection \<open>The centralized barrier: from the system to its view\<close>

lemma phase_of_code_at: "phase_of (code_at N ls ph) = ph"
  by (cases ph) (simp_all add: await_release_acquire_def)

lemma on_path_iff: "on_path N th = (\<exists>ph. pending th = code_at N (sense_of th) ph)"
  by (auto simp: on_path_def phase_of_code_at)

lemma thread_step_view:
  assumes "on_path N th"
  shows "on_path N (snd (snd (thread_step (centralized_body N) t m th))) \<and>
         ((counter (fst (snd (thread_step (centralized_body N) t m th))),
           flags (fst (snd (thread_step (centralized_body N) t m th))) Barrier_Sense),
          (phase_of (pending (snd (snd (thread_step (centralized_body N) t m th)))),
           sense_of (snd (snd (thread_step (centralized_body N) t m th))))) =
         phase_step N (counter m, flags m Barrier_Sense) (phase_of (pending th), sense_of th)"
proof -
  from assms obtain ph where p: "pending th = code_at N (sense_of th) ph"
    by (auto simp: on_path_iff)
  show ?thesis
    by (cases ph)
       (simp_all add: p on_path_iff thread_step_def centralized_body_def
          await_release_acquire_def exI [of _ Called] exI [of _ Rel1] exI [of _ Rel2]
          exI [of _ Rel3] exI [of _ Wait1] exI [of _ Wait2] exI [of _ Fin] exI [of _ Idle])
qed

lemma sys_step_on_path:
  assumes "\<forall>u < length (threads s). on_path N (threads s ! u)"
  shows "\<forall>u < length (threads (snd (sys_step (centralized_body N) t s))).
           on_path N (threads (snd (sys_step (centralized_body N) t s)) ! u)"
proof (intro allI impI)
  fix u
  assume "u < length (threads (snd (sys_step (centralized_body N) t s)))"
  then have u: "u < length (threads s)" by (simp add: length_sys_step)
  show "on_path N (threads (snd (sys_step (centralized_body N) t s)) ! u)"
  proof (cases "u = t")
    case True
    then show ?thesis
      using u assms thread_step_view by (simp add: sys_step_self)
  next
    case False
    then show ?thesis using u assms by (simp add: sys_step_other)
  qed
qed

lemma sys_step_view:
  assumes "\<forall>u < length (threads s). on_path N (threads s ! u)" and "t < length (threads s)"
  shows "view_of (snd (sys_step (centralized_body N) t s)) = view_step N t (view_of s)"
proof -
  let ?r = "thread_step (centralized_body N) t (mem s) (threads s ! t)"
  have o: "on_path N (threads s ! t)" using assms by simp
  note v = thread_step_view [OF o, of t "mem s", THEN conjunct2]
  have m: "mem (snd (sys_step (centralized_body N) t s)) = fst (snd ?r)"
    using assms(2) by (rule sys_step_mem)
  have th: "threads (snd (sys_step (centralized_body N) t s)) = (threads s)[t := snd (snd ?r)]"
    using assms(2) by (simp add: sys_step_def split: prod.splits)
  show ?thesis
    using assms(2)
    by (simp add: view_of_def m th map_update v [symmetric])
qed

subsection \<open>The invariant of the view\<close>

lemma finite_arrived: "finite (arrived S ps)"
  by (simp add: arrived_def)

lemma card_arrived_le: "card (arrived S ps) \<le> length ps"
proof -
  have "arrived S ps \<subseteq> {..<length ps}" by (auto simp: arrived_def)
  then have "card (arrived S ps) \<le> card {..<length ps}" by (intro card_mono) simp_all
  then show ?thesis by simp
qed

lemma arrived_update:
  "t < length ps \<Longrightarrow>
   arrived S (ps[t := x]) =
     (if x = (Wait1, \<not> S) then insert t (arrived S ps) else arrived S ps - {t})"
  by (auto simp: arrived_def nth_list_update)

lemma arrived_all_but:
  assumes "t < length ps" and "t \<notin> arrived S ps" and "Suc (card (arrived S ps)) = length ps"
  shows "\<forall>u < length ps. u \<noteq> t \<longrightarrow> ps ! u = (Wait1, \<not> S)"
proof -
  have sub: "arrived S ps \<subseteq> {..<length ps} - {t}"
    using assms(2) by (auto simp: arrived_def)
  have "card ({..<length ps} - {t}) = length ps - 1"
    using assms(1) by simp
  then have "card (arrived S ps) = card ({..<length ps} - {t})"
    using assms(3) by simp
  then have "arrived S ps = {..<length ps} - {t}"
    using sub by (intro card_subset_eq) simp_all
  then show ?thesis by (auto simp: arrived_def)
qed

lemma unat_succ: "unat (c::32 word) < unat (N::32 word) \<Longrightarrow> unat (c + 1) = Suc (unat c)"
proof -
  assume a: "unat c < unat N"
  have "unat N < 2 ^ 32" using unsigned_less [of N] by simp
  then have "unat c + unat (1::32 word) < 2 ^ LENGTH(32)" using a by simp
  then have "unat (c + 1) = unat c + unat (1::32 word)" by (simp only: unat_add_lem)
  then show ?thesis by simp
qed

lemma succ_eq_iff:
  "unat (c::32 word) < unat (N::32 word) \<Longrightarrow> (c + 1 = N) = (Suc (unat c) = unat N)"
  using unat_succ [of c N] by (metis word_unat_eq_iff)

lemma view_inv_iff:
  "view_inv N (c, S, ps) =
     (length ps = unat N \<and>
      (\<forall>u < length ps. fst (ps ! u) \<in> {Idle, Called, Rel1, Rel2, Rel3} \<longrightarrow> snd (ps ! u) = (\<not> S)) \<and>
      (\<forall>u < length ps. fst (ps ! u) \<in> {Wait2, Fin} \<longrightarrow> snd (ps ! u) = S) \<and>
      ((\<forall>u < length ps. \<not> releasing (fst (ps ! u))) \<longrightarrow>
         unat c = card (arrived S ps) \<and> card (arrived S ps) < length ps) \<and>
      (\<forall>r < length ps. releasing (fst (ps ! r)) \<longrightarrow>
         (\<forall>u < length ps. u \<noteq> r \<longrightarrow> ps ! u = (Wait1, \<not> S)) \<and>
         c = (if fst (ps ! r) = Rel3 then 0 else N)))"
  by (simp only: view_inv_def prod.case)

lemma view_inv_length: "view_inv N (c, S, ps) \<Longrightarrow> length ps = unat N"
  by (simp only: view_inv_iff)

lemma view_inv_ahead:
  "view_inv N (c, S, ps) \<Longrightarrow> u < length ps \<Longrightarrow>
   fst (ps ! u) \<in> {Idle, Called, Rel1, Rel2, Rel3} \<Longrightarrow> snd (ps ! u) = (\<not> S)"
  unfolding view_inv_iff by blast

lemma view_inv_behind:
  "view_inv N (c, S, ps) \<Longrightarrow> u < length ps \<Longrightarrow>
   fst (ps ! u) \<in> {Wait2, Fin} \<Longrightarrow> snd (ps ! u) = S"
  unfolding view_inv_iff by blast

lemma view_inv_count:
  "view_inv N (c, S, ps) \<Longrightarrow> \<forall>u < length ps. \<not> releasing (fst (ps ! u)) \<Longrightarrow>
   unat c = card (arrived S ps) \<and> card (arrived S ps) < length ps"
  unfolding view_inv_iff by blast

lemma view_inv_others:
  "view_inv N (c, S, ps) \<Longrightarrow> r < length ps \<Longrightarrow> releasing (fst (ps ! r)) \<Longrightarrow>
   u < length ps \<Longrightarrow> u \<noteq> r \<Longrightarrow> ps ! u = (Wait1, \<not> S)"
  unfolding view_inv_iff by blast

lemma view_inv_counter:
  "view_inv N (c, S, ps) \<Longrightarrow> r < length ps \<Longrightarrow> releasing (fst (ps ! r)) \<Longrightarrow>
   c = (if fst (ps ! r) = Rel3 then 0 else N)"
  unfolding view_inv_iff by blast

lemma no_releaser:
  assumes "view_inv N (c, S, ps)" and "t < length ps"
    and "\<not> releasing (fst (ps ! t))" and "ps ! t \<noteq> (Wait1, \<not> S)"
  shows "\<forall>u < length ps. \<not> releasing (fst (ps ! u))"
proof (intro allI impI notI)
  fix r
  assume r: "r < length ps" "releasing (fst (ps ! r))"
  then have "t \<noteq> r" using assms(3) by auto
  then have "ps ! t = (Wait1, \<not> S)"
    using view_inv_others [OF assms(1) r assms(2)] by simp
  then show False using assms(4) by simp
qed

text \<open>A thread off the releaser's path moves to a point that is neither on it nor an arrival.\<close>

lemma quiet_update:
  assumes inv: "view_inv N (c, S, ps)" and t: "t < length ps"
    and old: "\<not> releasing (fst (ps ! t))" "ps ! t \<noteq> (Wait1, \<not> S)"
    and new: "\<not> releasing ph" "(ph, ls) \<noteq> (Wait1, \<not> S)"
      "ph \<in> {Idle, Called, Rel1, Rel2, Rel3} \<longrightarrow> ls = (\<not> S)"
      "ph \<in> {Wait2, Fin} \<longrightarrow> ls = S"
  shows "view_inv N (c, S, ps[t := (ph, ls)])"
proof -
  define ps' where "ps' = ps[t := (ph, ls)]"
  have len: "length ps' = length ps" by (simp add: ps'_def)
  have at: "ps' ! t = (ph, ls)" using t by (simp add: ps'_def)
  have other: "u \<noteq> t \<Longrightarrow> ps' ! u = ps ! u" for u by (simp add: ps'_def)
  note nr = no_releaser [OF inv t old]
  have "t \<notin> arrived S ps" using old(2) by (simp add: arrived_def)
  then have a: "arrived S ps' = arrived S ps"
    using t new(2) by (auto simp: ps'_def arrived_update)
  have l: "length ps' = unat N" using view_inv_length [OF inv] len by simp
  have i2: "\<forall>u < length ps'. fst (ps' ! u) \<in> {Idle, Called, Rel1, Rel2, Rel3}
              \<longrightarrow> snd (ps' ! u) = (\<not> S)"
  proof (intro allI impI)
    fix u assume u: "u < length ps'" "fst (ps' ! u) \<in> {Idle, Called, Rel1, Rel2, Rel3}"
    show "snd (ps' ! u) = (\<not> S)"
    proof (cases "u = t")
      case True then show ?thesis using u(2) new(3) at by simp
    next
      case False
      have "fst (ps ! u) \<in> {Idle, Called, Rel1, Rel2, Rel3} \<longrightarrow> snd (ps ! u) = (\<not> S)"
        using view_inv_ahead [OF inv, of u] u(1) len by simp
      then show ?thesis using u(2) other [OF False] by auto
    qed
  qed
  have i3: "\<forall>u < length ps'. fst (ps' ! u) \<in> {Wait2, Fin} \<longrightarrow> snd (ps' ! u) = S"
  proof (intro allI impI)
    fix u assume u: "u < length ps'" "fst (ps' ! u) \<in> {Wait2, Fin}"
    show "snd (ps' ! u) = S"
    proof (cases "u = t")
      case True then show ?thesis using u(2) new(4) at by simp
    next
      case False
      have "fst (ps ! u) \<in> {Wait2, Fin} \<longrightarrow> snd (ps ! u) = S"
        using view_inv_behind [OF inv, of u] u(1) len by simp
      then show ?thesis using u(2) other [OF False] by auto
    qed
  qed
  have nr': "\<forall>u < length ps'. \<not> releasing (fst (ps' ! u))"
  proof (intro allI impI)
    fix u assume u: "u < length ps'"
    show "\<not> releasing (fst (ps' ! u))"
    proof (cases "u = t")
      case True then show ?thesis using new(1) at by simp
    next
      case False then show ?thesis using nr u len other by simp
    qed
  qed
  have i4: "(\<forall>u < length ps'. \<not> releasing (fst (ps' ! u))) \<longrightarrow>
              unat c = card (arrived S ps') \<and> card (arrived S ps') < length ps'"
    using view_inv_count [OF inv nr] by (simp add: a len)
  have i5: "\<forall>r < length ps'. releasing (fst (ps' ! r)) \<longrightarrow>
              (\<forall>u < length ps'. u \<noteq> r \<longrightarrow> ps' ! u = (Wait1, \<not> S)) \<and>
              c = (if fst (ps' ! r) = Rel3 then 0 else N)"
    using nr' by blast
  show ?thesis
    unfolding ps'_def [symmetric] view_inv_iff
    using l i2 i3 i4 i5 by blast
qed

text \<open>The releaser moves along its path.\<close>

lemma releaser_update:
  assumes inv: "view_inv N (c, S, ps)" and t: "t < length ps"
    and old: "releasing (fst (ps ! t))"
    and new: "releasing ph" "c' = (if ph = Rel3 then 0 else N)"
  shows "view_inv N (c', S, ps[t := (ph, snd (ps ! t))])"
proof -
  define ps' where "ps' = ps[t := (ph, snd (ps ! t))]"
  have len: "length ps' = length ps" by (simp add: ps'_def)
  have at: "ps' ! t = (ph, snd (ps ! t))" using t by (simp add: ps'_def)
  have other: "u \<noteq> t \<Longrightarrow> ps' ! u = ps ! u" for u by (simp add: ps'_def)
  have others: "\<forall>u < length ps. u \<noteq> t \<longrightarrow> ps ! u = (Wait1, \<not> S)"
    using view_inv_others [OF inv t old] by blast
  have "fst (ps ! t) \<in> {Idle, Called, Rel1, Rel2, Rel3}"
    using old by (auto simp: releasing_def)
  then have ls: "snd (ps ! t) = (\<not> S)"
    using view_inv_ahead [OF inv t] by blast
  have l: "length ps' = unat N" using view_inv_length [OF inv] len by simp
  have shape: "ps' ! u = (if u = t then (ph, \<not> S) else (Wait1, \<not> S))" if "u < length ps'" for u
    using that others at other ls len by simp
  have i2: "\<forall>u < length ps'. fst (ps' ! u) \<in> {Idle, Called, Rel1, Rel2, Rel3}
              \<longrightarrow> snd (ps' ! u) = (\<not> S)"
    using shape by simp
  have i3: "\<forall>u < length ps'. fst (ps' ! u) \<in> {Wait2, Fin} \<longrightarrow> snd (ps' ! u) = S"
    using shape new(1) by (auto simp: releasing_def)
  have i4: "(\<forall>u < length ps'. \<not> releasing (fst (ps' ! u))) \<longrightarrow>
              unat c' = card (arrived S ps') \<and> card (arrived S ps') < length ps'"
    using t new(1) at len by auto
  have i5: "\<forall>r < length ps'. releasing (fst (ps' ! r)) \<longrightarrow>
              (\<forall>u < length ps'. u \<noteq> r \<longrightarrow> ps' ! u = (Wait1, \<not> S)) \<and>
              c' = (if fst (ps' ! r) = Rel3 then 0 else N)"
  proof (intro allI impI)
    fix r
    assume r: "r < length ps'" "releasing (fst (ps' ! r))"
    have "r = t"
      using shape [OF r(1)] r(2) by (auto simp: releasing_def split: if_splits)
    then show "(\<forall>u < length ps'. u \<noteq> r \<longrightarrow> ps' ! u = (Wait1, \<not> S)) \<and>
               c' = (if fst (ps' ! r) = Rel3 then 0 else N)"
      using shape new(2) at by simp
  qed
  show ?thesis
    unfolding ps'_def [symmetric] view_inv_iff
    using l i2 i3 i4 i5 by blast
qed

text \<open>A thread arrives and is not the last.\<close>

lemma arrival_update:
  assumes inv: "view_inv N (c, S, ps)" and t: "t < length ps"
    and old: "ps ! t = (Called, ls)" and new: "c + 1 \<noteq> N"
  shows "view_inv N (c + 1, S, ps[t := (Wait1, ls)])"
proof -
  define ps' where "ps' = ps[t := (Wait1, ls)]"
  have len: "length ps' = length ps" by (simp add: ps'_def)
  have other: "u \<noteq> t \<Longrightarrow> ps' ! u = ps ! u" for u by (simp add: ps'_def)
  have nr: "\<forall>u < length ps. \<not> releasing (fst (ps ! u))"
    using no_releaser [OF inv t] old by (simp add: releasing_def)
  have ls: "ls = (\<not> S)"
    using view_inv_ahead [OF inv t] old by simp
  then have at: "ps' ! t = (Wait1, \<not> S)" using t by (simp add: ps'_def)
  note cnt = view_inv_count [OF inv nr]
  have n: "length ps = unat N" using inv by (rule view_inv_length)
  have "t \<notin> arrived S ps" using old by (simp add: arrived_def)
  moreover have "arrived S ps' = insert t (arrived S ps)"
    using t ls by (simp add: ps'_def arrived_update)
  ultimately have card': "card (arrived S ps') = Suc (card (arrived S ps))"
    by (simp add: finite_arrived)
  have lt: "unat c < unat N" using cnt n by simp
  have u: "unat (c + 1) = Suc (unat c)" using lt by (rule unat_succ)
  have "Suc (unat c) \<noteq> unat N" using new succ_eq_iff [OF lt] by simp
  then have less: "card (arrived S ps') < length ps'"
    using card' cnt n len by simp
  have l: "length ps' = unat N" using n len by simp
  have i2: "\<forall>u < length ps'. fst (ps' ! u) \<in> {Idle, Called, Rel1, Rel2, Rel3}
              \<longrightarrow> snd (ps' ! u) = (\<not> S)"
  proof (intro allI impI)
    fix u assume u: "u < length ps'" "fst (ps' ! u) \<in> {Idle, Called, Rel1, Rel2, Rel3}"
    then have "u \<noteq> t" using at by auto
    then show "snd (ps' ! u) = (\<not> S)"
      using view_inv_ahead [OF inv, of u] u len other by simp
  qed
  have i3: "\<forall>u < length ps'. fst (ps' ! u) \<in> {Wait2, Fin} \<longrightarrow> snd (ps' ! u) = S"
  proof (intro allI impI)
    fix u assume u: "u < length ps'" "fst (ps' ! u) \<in> {Wait2, Fin}"
    then have "u \<noteq> t" using at by auto
    then show "snd (ps' ! u) = S"
      using view_inv_behind [OF inv, of u] u len other by simp
  qed
  have nr': "\<forall>u < length ps'. \<not> releasing (fst (ps' ! u))"
  proof (intro allI impI)
    fix u assume u: "u < length ps'"
    show "\<not> releasing (fst (ps' ! u))"
    proof (cases "u = t")
      case True then show ?thesis using at by (simp add: releasing_def)
    next
      case False then show ?thesis using nr u len other by simp
    qed
  qed
  have i4: "(\<forall>u < length ps'. \<not> releasing (fst (ps' ! u))) \<longrightarrow>
              unat (c + 1) = card (arrived S ps') \<and> card (arrived S ps') < length ps'"
    using u card' cnt less by simp
  have i5: "\<forall>r < length ps'. releasing (fst (ps' ! r)) \<longrightarrow>
              (\<forall>u < length ps'. u \<noteq> r \<longrightarrow> ps' ! u = (Wait1, \<not> S)) \<and>
              c + 1 = (if fst (ps' ! r) = Rel3 then 0 else N)"
    using nr' by blast
  show ?thesis
    unfolding ps'_def [symmetric] view_inv_iff
    using l i2 i3 i4 i5 by blast
qed

text \<open>The last thread arrives and becomes the releaser.\<close>

lemma last_arrival_update:
  assumes inv: "view_inv N (c, S, ps)" and t: "t < length ps"
    and old: "ps ! t = (Called, ls)" and new: "c + 1 = N"
  shows "view_inv N (c + 1, S, ps[t := (Rel1, ls)])"
proof -
  define ps' where "ps' = ps[t := (Rel1, ls)]"
  have len: "length ps' = length ps" by (simp add: ps'_def)
  have other: "u \<noteq> t \<Longrightarrow> ps' ! u = ps ! u" for u by (simp add: ps'_def)
  have nr: "\<forall>u < length ps. \<not> releasing (fst (ps ! u))"
    using no_releaser [OF inv t] old by (simp add: releasing_def)
  have ls: "ls = (\<not> S)"
    using view_inv_ahead [OF inv t] old by simp
  then have at: "ps' ! t = (Rel1, \<not> S)" using t by (simp add: ps'_def)
  note cnt = view_inv_count [OF inv nr]
  have n: "length ps = unat N" using inv by (rule view_inv_length)
  have notin: "t \<notin> arrived S ps" using old by (simp add: arrived_def)
  have lt: "unat c < unat N" using cnt n by simp
  have "Suc (unat c) = unat N" using new succ_eq_iff [OF lt] by simp
  then have "Suc (card (arrived S ps)) = length ps" using cnt n by simp
  then have others: "\<forall>u < length ps. u \<noteq> t \<longrightarrow> ps ! u = (Wait1, \<not> S)"
    using t notin by (intro arrived_all_but)
  have shape: "ps' ! u = (if u = t then (Rel1, \<not> S) else (Wait1, \<not> S))" if "u < length ps'" for u
    using that others at other len by simp
  have l: "length ps' = unat N" using n len by simp
  have i2: "\<forall>u < length ps'. fst (ps' ! u) \<in> {Idle, Called, Rel1, Rel2, Rel3}
              \<longrightarrow> snd (ps' ! u) = (\<not> S)"
    using shape by simp
  have i3: "\<forall>u < length ps'. fst (ps' ! u) \<in> {Wait2, Fin} \<longrightarrow> snd (ps' ! u) = S"
    using shape by simp
  have i4: "(\<forall>u < length ps'. \<not> releasing (fst (ps' ! u))) \<longrightarrow>
              unat (c + 1) = card (arrived S ps') \<and> card (arrived S ps') < length ps'"
    using t at len by (auto simp: releasing_def)
  have i5: "\<forall>r < length ps'. releasing (fst (ps' ! r)) \<longrightarrow>
              (\<forall>u < length ps'. u \<noteq> r \<longrightarrow> ps' ! u = (Wait1, \<not> S)) \<and>
              c + 1 = (if fst (ps' ! r) = Rel3 then 0 else N)"
  proof (intro allI impI)
    fix r
    assume r: "r < length ps'" "releasing (fst (ps' ! r))"
    have "r = t"
      using shape [OF r(1)] r(2) by (auto simp: releasing_def split: if_splits)
    then show "(\<forall>u < length ps'. u \<noteq> r \<longrightarrow> ps' ! u = (Wait1, \<not> S)) \<and>
               c + 1 = (if fst (ps' ! r) = Rel3 then 0 else N)"
      using shape new at by simp
  qed
  show ?thesis
    unfolding ps'_def [symmetric] view_inv_iff
    using l i2 i3 i4 i5 by blast
qed

text \<open>The releaser stores its local sense into the shared sense.\<close>

lemma release_update:
  assumes inv: "view_inv N (c, S, ps)" and t: "t < length ps"
    and old: "ps ! t = (Rel3, ls)"
  shows "view_inv N (c, ls, ps[t := (Fin, ls)])"
proof -
  define ps' where "ps' = ps[t := (Fin, ls)]"
  have len: "length ps' = length ps" by (simp add: ps'_def)
  have other: "u \<noteq> t \<Longrightarrow> ps' ! u = ps ! u" for u by (simp add: ps'_def)
  have rel: "releasing (fst (ps ! t))" using old by (simp add: releasing_def)
  have others: "\<forall>u < length ps. u \<noteq> t \<longrightarrow> ps ! u = (Wait1, \<not> S)"
    using view_inv_others [OF inv t rel] by blast
  have ls: "ls = (\<not> S)"
    using view_inv_ahead [OF inv t] old by simp
  have c: "c = 0" using view_inv_counter [OF inv t rel] old by simp
  have at: "ps' ! t = (Fin, ls)" using t by (simp add: ps'_def)
  have shape: "ps' ! u = (if u = t then (Fin, ls) else (Wait1, ls))" if "u < length ps'" for u
    using that others at other len ls by simp
  have l: "length ps' = unat N" using view_inv_length [OF inv] len by simp
  have i2: "\<forall>u < length ps'. fst (ps' ! u) \<in> {Idle, Called, Rel1, Rel2, Rel3}
              \<longrightarrow> snd (ps' ! u) = (\<not> ls)"
    using shape by simp
  have i3: "\<forall>u < length ps'. fst (ps' ! u) \<in> {Wait2, Fin} \<longrightarrow> snd (ps' ! u) = ls"
    using shape by simp
  have "arrived ls ps' = {}"
    using shape by (auto simp: arrived_def split: if_splits)
  moreover have "0 < length ps'" using t len by linarith
  ultimately have i4: "(\<forall>u < length ps'. \<not> releasing (fst (ps' ! u))) \<longrightarrow>
              unat c = card (arrived ls ps') \<and> card (arrived ls ps') < length ps'"
    using c by (simp del: length_greater_0_conv)
  have i5: "\<forall>r < length ps'. releasing (fst (ps' ! r)) \<longrightarrow>
              (\<forall>u < length ps'. u \<noteq> r \<longrightarrow> ps' ! u = (Wait1, \<not> ls)) \<and>
              c = (if fst (ps' ! r) = Rel3 then 0 else N)"
    using shape by (simp add: releasing_def)
  show ?thesis
    unfolding ps'_def [symmetric] view_inv_iff
    using l i2 i3 i4 i5 by blast
qed

lemma view_step_inv:
  assumes inv: "view_inv N (c, S, ps)" and t: "t < length ps"
  shows "view_inv N (view_step N t (c, S, ps))"
proof -
  obtain ph ls where old: "ps ! t = (ph, ls)" by (cases "ps ! t")
  show ?thesis
  proof (cases ph)
    case Idle
    have "view_inv N (c, S, ps[t := (Called, ls)])"
      using view_inv_ahead [OF inv t] old Idle
      by (intro quiet_update [OF inv t]) (simp_all add: releasing_def)
    then show ?thesis using old Idle by simp
  next
    case Called
    show ?thesis
    proof (cases "c + 1 = N")
      case True
      then show ?thesis
        using last_arrival_update [OF inv t _ True, of ls] old Called by simp
    next
      case False
      then show ?thesis
        using arrival_update [OF inv t _ False, of ls] old Called by simp
    qed
  next
    case Rel1
    have "view_inv N (c, S, ps[t := (Rel2, snd (ps ! t))])"
      using view_inv_counter [OF inv t] old Rel1
      by (intro releaser_update [OF inv t]) (simp_all add: releasing_def)
    then show ?thesis using old Rel1 by simp
  next
    case Rel2
    have "view_inv N (0, S, ps[t := (Rel3, snd (ps ! t))])"
      using old Rel2
      by (intro releaser_update [OF inv t]) (simp_all add: releasing_def)
    then show ?thesis using old Rel2 by simp
  next
    case Rel3
    then show ?thesis
      using release_update [OF inv t, of ls] old by simp
  next
    case Wait1
    show ?thesis
    proof (cases "S = ls")
      case True
      have "view_inv N (c, S, ps[t := (Wait2, ls)])"
        using old Wait1 True
        by (intro quiet_update [OF inv t]) (simp_all add: releasing_def)
      then show ?thesis using old Wait1 True by simp
    next
      case False
      have "ps[t := (Wait1, ls)] = ps" using old Wait1 by (metis list_update_id)
      then show ?thesis using inv old Wait1 False by simp
    qed
  next
    case Wait2
    have "view_inv N (c, S, ps[t := (Fin, ls)])"
      using view_inv_behind [OF inv t] old Wait2
      by (intro quiet_update [OF inv t]) (simp_all add: releasing_def)
    then show ?thesis using old Wait2 by simp
  next
    case Fin
    have "view_inv N (c, S, ps[t := (Idle, \<not> ls)])"
      using view_inv_behind [OF inv t] old Fin
      by (intro quiet_update [OF inv t]) (simp_all add: releasing_def)
    then show ?thesis using old Fin by simp
  qed
qed

subsection \<open>The invariant in the runs of the centralized barrier\<close>

lemma length_view: "length (snd (snd (view_of s))) = length (threads s)"
  by (simp add: view_of_def)

lemma sys_step_central_inv:
  assumes "central_inv N s"
  shows "central_inv N (snd (sys_step (centralized_body N) t s))"
proof (cases "t < length (threads s)")
  case False
  then show ?thesis using assms by (simp add: sys_step_invalid)
next
  case True
  have o: "\<forall>u < length (threads s). on_path N (threads s ! u)"
    using assms by (simp add: central_inv_def)
  obtain c S ps where v: "view_of s = (c, S, ps)" by (cases "view_of s")
  then have l: "length ps = length (threads s)" using length_view [of s] by simp
  have "view_inv N (c, S, ps)" using assms v by (simp add: central_inv_def)
  then have "view_inv N (view_step N t (c, S, ps))"
    using True l by (intro view_step_inv) simp_all
  then have "view_inv N (view_of (snd (sys_step (centralized_body N) t s)))"
    using sys_step_view [OF o True] v by simp
  then show ?thesis
    using sys_step_on_path [OF o, of t] by (simp add: central_inv_def)
qed

lemma central_inv_init:
  assumes "N \<noteq> 0"
  shows "central_inv N (centralized_init N)"
proof -
  have n: "0 < unat N" using assms by (simp add: unat_gt_0)
  let ?ps = "replicate (unat N) (Idle, False)"
  have v: "view_of (centralized_init N) = (0, True, ?ps)"
    by (simp add: view_of_def centralized_init_def new_thread_def)
  have a: "arrived True ?ps = {}" by (auto simp: arrived_def)
  have "view_inv N (0, True, ?ps)"
    unfolding view_inv_iff using n by (simp add: a releasing_def)
  moreover have "\<forall>u < length (threads (centralized_init N)).
                   on_path N (threads (centralized_init N) ! u)"
    by (simp add: centralized_init_def new_thread_def on_path_def)
  ultimately show ?thesis by (simp add: central_inv_def v)
qed

lemma run_central_inv:
  assumes "N \<noteq> 0"
  shows "central_inv N (run (centralized_body N) sched (centralized_init N))"
  using central_inv_init [OF assms]
  by (rule run_invariant) (rule sys_step_central_inv)

lemma run_parity_init:
  assumes "flips body" and "\<forall>u < length (threads s). parity_ok (threads s ! u)"
  shows "senses_match_parity (run body sched s)"
  using run_parity [OF assms, of sched]
  by (simp add: senses_match_parity_def list_all_length length_run parity_ok_def)

text \<open>Between two episodes: all threads idle, \<open>k\<close> episodes completed.\<close>

lemma central_between_episodes:
  assumes inv: "central_inv N s" and par: "senses_match_parity s"
    and idle: "after_episode k s" and n: "threads s \<noteq> []"
  shows "counter (mem s) = 0 \<and> flags (mem s) Barrier_Sense = even k \<and>
         map sense_of (threads s) = replicate (length (threads s)) (odd k)"
proof -
  let ?ps = "map (\<lambda>th. (phase_of (pending th), sense_of th)) (threads s)"
  let ?S = "flags (mem s) Barrier_Sense"
  have v: "view_inv N (counter (mem s), ?S, ?ps)"
    using inv by (simp add: central_inv_def view_of_def)
  have th: "pending (threads s ! u) = None \<and> completed (threads s ! u) = k
            \<and> sense_of (threads s ! u) = odd k" if "u < length (threads s)" for u
    using that idle par by (simp add: after_episode_def senses_match_parity_def list_all_length)
  have at: "?ps ! u = (Idle, odd k)" if "u < length ?ps" for u
    using that th by simp
  have nr: "\<forall>u < length ?ps. \<not> releasing (fst (?ps ! u))"
    using at by (simp add: releasing_def)
  have "arrived ?S ?ps = {}"
    using at by (auto simp: arrived_def)
  then have "unat (counter (mem s)) = 0"
    using view_inv_count [OF v nr] by simp
  then have c: "counter (mem s) = 0" by (simp add: unat_eq_0)
  have "0 < length ?ps" using n by simp
  then have "snd (?ps ! 0) = (\<not> ?S)"
    using at [of 0] by (intro view_inv_ahead [OF v]) simp_all
  then have S: "?S = even k" using at [of 0] \<open>0 < length ?ps\<close> by simp
  have "map sense_of (threads s) = replicate (length (threads s)) (odd k)"
    using th by (intro nth_equalityI) simp_all
  then show ?thesis using c S by simp
qed

section \<open>Runs of the barriers\<close>

lemma flips_variants:
  "flips (\<lambda>t. await_release_acquire N)" "flips (\<lambda>t. await_seq_cst N)"
  "flips (\<lambda>t. await_acq_rel N)" "flips (\<lambda>t. await_prefetch N)"
  by (auto simp: flips_def await_release_acquire_def await_seq_cst_def await_acq_rel_def
      await_prefetch_def split: if_splits)

lemma parity_centralized_init:
  "\<forall>u < length (threads (centralized_init N)). parity_ok (threads (centralized_init N) ! u)"
  by (simp add: centralized_init_def parity_new_thread)

lemma parity_static_tree_init:
  assumes "list_all (\<lambda>n. \<not> local_sense n) nodes"
  shows "\<forall>u < length (threads (static_tree_init nodes)).
           parity_ok (threads (static_tree_init nodes) ! u)"
  using assms
  by (simp add: static_tree_init_def parity_ok_def new_thread_def list_all_length)

lemma parity_global_departure_init:
  assumes "list_all (\<lambda>n. \<not> gd_local_sense n) nodes"
  shows "\<forall>u < length (threads (global_departure_init nodes)).
           parity_ok (threads (global_departure_init nodes) ! u)"
  using assms
  by (simp add: global_departure_init_def parity_ok_def new_thread_def list_all_length)

lemma four_threads: "length (threads (run body sched (centralized_init 4))) = 4"
  by (simp add: length_run centralized_init_def)

lemma central_after_episode:
  assumes "after_episode k (run (centralized_body 4) sched (centralized_init 4))"
  shows "counter (mem (run (centralized_body 4) sched (centralized_init 4))) = 0 \<and>
         flags (mem (run (centralized_body 4) sched (centralized_init 4))) Barrier_Sense = even k \<and>
         map sense_of (threads (run (centralized_body 4) sched (centralized_init 4))) =
           [odd k, odd k, odd k, odd k]"
proof -
  let ?s = "run (centralized_body 4) sched (centralized_init 4)"
  have inv: "central_inv 4 ?s" by (rule run_central_inv) simp
  have par: "senses_match_parity ?s"
    using flips_centralized parity_centralized_init by (rule run_parity_init)
  have ne: "threads ?s \<noteq> []" using four_threads [of "centralized_body 4" sched] by auto
  have "replicate 4 x = [x, x, x, x]" for x :: bool by (simp add: numeral_eq_Suc)
  then show ?thesis
    using central_between_episodes [OF inv par assms ne]
    by (simp add: four_threads)
qed

lemma parity_round_trip:
  assumes "senses_match_parity s" and "senses_match_parity s'"
    and "length (threads s) = length (threads s')"
  shows "round_trip s s'"
  using assms
  by (auto simp: round_trip_def senses_match_parity_def list_all_length list_all2_conv_all_nth)

lemma run_round_trip:
  assumes "flips body" and "\<forall>u < length (threads s). parity_ok (threads s ! u)"
  shows "round_trip (run body sched s) (run body (sched @ later) s)"
  using run_parity_init [OF assms, of sched] run_parity_init [OF assms, of "sched @ later"]
  by (rule parity_round_trip) (simp add: length_run)

text \<open>
  Claim C4. In every run of each barrier (the centralized one with any of its four
  bodies, the two tree barriers on nodes whose local sense starts false), every
  participant's local sense is at all times, and so at every return from \<^verbatim>\<open>await\<close>,
  the parity of the episodes it has completed; a participant that completes two more
  episodes holds its former local sense again. For the
  centralized barrier with four threads, started with the counter 0, the sense true and
  all local senses false: whenever all four threads are between calls with one episode
  completed, the counter is 0, the sense false and all local senses true; with two
  episodes completed, the counter is 0, the sense true and all local senses false.
\<close>

theorem local_sense_parity:
  assumes "list_all (\<lambda>n. \<not> local_sense n) nodes"
    and "list_all (\<lambda>n. \<not> gd_local_sense n) gd_nodes"
  shows "list_all (\<lambda>(on, v). senses_match_parity (run (\<lambda>t. v N) sched (centralized_init N)))
           await_variants \<and>
         senses_match_parity (run (static_tree_body nodes) sched (static_tree_init nodes)) \<and>
         senses_match_parity
           (run (global_departure_body gd_nodes) sched (global_departure_init gd_nodes)) \<and>
         round_trip (run (centralized_body N) sched (centralized_init N))
           (run (centralized_body N) (sched @ later) (centralized_init N)) \<and>
         round_trip (run (static_tree_body nodes) sched (static_tree_init nodes))
           (run (static_tree_body nodes) (sched @ later) (static_tree_init nodes)) \<and>
         round_trip
           (run (global_departure_body gd_nodes) sched (global_departure_init gd_nodes))
           (run (global_departure_body gd_nodes) (sched @ later)
              (global_departure_init gd_nodes)) \<and>
         (after_episode 1 (run (centralized_body 4) sched (centralized_init 4)) \<longrightarrow>
            counter (mem (run (centralized_body 4) sched (centralized_init 4))) = 0 \<and>
            flags (mem (run (centralized_body 4) sched (centralized_init 4))) Barrier_Sense
              = False \<and>
            map sense_of (threads (run (centralized_body 4) sched (centralized_init 4)))
              = [True, True, True, True]) \<and>
         (after_episode 2 (run (centralized_body 4) sched (centralized_init 4)) \<longrightarrow>
            counter (mem (run (centralized_body 4) sched (centralized_init 4))) = 0 \<and>
            flags (mem (run (centralized_body 4) sched (centralized_init 4))) Barrier_Sense
              = True \<and>
            map sense_of (threads (run (centralized_body 4) sched (centralized_init 4)))
              = [False, False, False, False])"
proof (intro conjI impI)
  show "list_all (\<lambda>(on, v). senses_match_parity (run (\<lambda>t. v N) sched (centralized_init N)))
          await_variants"
    using flips_variants [of N] parity_centralized_init [of N]
    by (simp add: await_variants_def run_parity_init)
  show "senses_match_parity (run (static_tree_body nodes) sched (static_tree_init nodes))"
    using flips_static_tree parity_static_tree_init [OF assms(1)] by (rule run_parity_init)
  show "senses_match_parity
          (run (global_departure_body gd_nodes) sched (global_departure_init gd_nodes))"
    using flips_global_departure parity_global_departure_init [OF assms(2)]
    by (rule run_parity_init)
  show "round_trip (run (centralized_body N) sched (centralized_init N))
          (run (centralized_body N) (sched @ later) (centralized_init N))"
    using flips_centralized parity_centralized_init by (rule run_round_trip)
  show "round_trip (run (static_tree_body nodes) sched (static_tree_init nodes))
          (run (static_tree_body nodes) (sched @ later) (static_tree_init nodes))"
    using flips_static_tree parity_static_tree_init [OF assms(1)] by (rule run_round_trip)
  show "round_trip
          (run (global_departure_body gd_nodes) sched (global_departure_init gd_nodes))
          (run (global_departure_body gd_nodes) (sched @ later)
             (global_departure_init gd_nodes))"
    using flips_global_departure parity_global_departure_init [OF assms(2)]
    by (rule run_round_trip)
next
  assume a: "after_episode 1 (run (centralized_body 4) sched (centralized_init 4))"
  note r = central_after_episode [OF a]
  show "counter (mem (run (centralized_body 4) sched (centralized_init 4))) = 0"
    using r by simp
  show "flags (mem (run (centralized_body 4) sched (centralized_init 4))) Barrier_Sense = False"
    using r by simp
  show "map sense_of (threads (run (centralized_body 4) sched (centralized_init 4)))
          = [True, True, True, True]"
    using r by simp
next
  assume a: "after_episode 2 (run (centralized_body 4) sched (centralized_init 4))"
  note r = central_after_episode [OF a]
  show "counter (mem (run (centralized_body 4) sched (centralized_init 4))) = 0"
    using r by simp
  show "flags (mem (run (centralized_body 4) sched (centralized_init 4))) Barrier_Sense = True"
    using r by simp
  show "map sense_of (threads (run (centralized_body 4) sched (centralized_init 4)))
          = [False, False, False, False]"
    using r by simp
qed

lemma centralized_init_4:
  "centralized_init 4 =
     \<lparr>mem = \<lparr>counter = 0, flags = (\<lambda>c. True)\<rparr>,
      threads = [new_thread, new_thread, new_thread, new_thread]\<rparr>"
proof -
  have "unat (4::32 word) = 4" by simp
  moreover have "replicate 4 x = [x, x, x, x]" for x :: thread
    by (simp add: numeral_eq_Suc)
  ultimately show ?thesis by (simp only: centralized_init_def)
qed

lemma one_episode_run:
  "after_episode 1 (run (centralized_body 4) one_episode_of_four (centralized_init 4))"
  unfolding centralized_init_4
  by (simp add: one_episode_of_four_def centralized_body_def await_release_acquire_def
      sys_step_def thread_step_def new_thread_def after_episode_def)

lemma two_episodes_run:
  "after_episode 2
     (run (centralized_body 4) (one_episode_of_four @ one_episode_of_four) (centralized_init 4))"
  unfolding centralized_init_4
  by (simp add: one_episode_of_four_def centralized_body_def await_release_acquire_def
      sys_step_def thread_step_def new_thread_def after_episode_def)

text \<open>
  The schedule \<open>one_episode_of_four\<close> takes the four threads through one episode, twice
  through two; the nodes are those of the trees on two nodes.
\<close>

theorem local_sense_parity_witness:
  "after_episode 1 (run (centralized_body 4) one_episode_of_four (centralized_init 4)) \<and>
   counter (mem (run (centralized_body 4) one_episode_of_four (centralized_init 4))) = 0 \<and>
   flags (mem (run (centralized_body 4) one_episode_of_four (centralized_init 4)))
     Barrier_Sense = False \<and>
   map sense_of (threads (run (centralized_body 4) one_episode_of_four (centralized_init 4)))
     = [True, True, True, True] \<and>
   after_episode 2
     (run (centralized_body 4) (one_episode_of_four @ one_episode_of_four)
        (centralized_init 4)) \<and>
   counter (mem (run (centralized_body 4) (one_episode_of_four @ one_episode_of_four)
                   (centralized_init 4))) = 0 \<and>
   flags (mem (run (centralized_body 4) (one_episode_of_four @ one_episode_of_four)
                 (centralized_init 4))) Barrier_Sense = True \<and>
   map sense_of (threads (run (centralized_body 4) (one_episode_of_four @ one_episode_of_four)
                            (centralized_init 4)))
     = [False, False, False, False] \<and>
   static_tree_layout_good_locality 2 = Inr (map init_flags (run_stmts
       [parent_null 0, resize_slots 0 1, push_departure 0 1, parent_slot 1 0 0]
       [init_senses new_node, init_senses new_node])) \<and>
   senses_match_parity
     (run (static_tree_body (map init_flags (run_stmts
             [parent_null 0, resize_slots 0 1, push_departure 0 1, parent_slot 1 0 0]
             [init_senses new_node, init_senses new_node])))
          [1, 1, 0, 0, 0, 0, 1, 1, 1, 1, 0]
          (static_tree_init (map init_flags (run_stmts
             [parent_null 0, resize_slots 0 1, push_departure 0 1, parent_slot 1 0 0]
             [init_senses new_node, init_senses new_node]))))"
proof -
  let ?nodes = "map init_flags (run_stmts
       [parent_null 0, resize_slots 0 1, push_departure 0 1, parent_slot 1 0 0]
       [init_senses new_node, init_senses new_node])"
  have b: "static_tree_layout_good_locality 2 = Inr ?nodes"
    by (simp add: static_tree_layout_good_locality_def good_locality_switch_def numeral_eq_Suc)
  have n: "list_all (\<lambda>n. \<not> local_sense n) ?nodes"
    by (simp add: run_stmts_def init_flags_def init_senses_def new_node_def parent_null_def
        resize_slots_def push_departure_def parent_slot_def)
  have g: "list_all (\<lambda>n. \<not> gd_local_sense n) []" by simp
  note t1 = local_sense_parity [OF n g, of 4 one_episode_of_four]
  note t2 = local_sense_parity [OF n g, of 4 "one_episode_of_four @ one_episode_of_four"]
  note t3 = local_sense_parity [OF n g, of 4 "[1, 1, 0, 0, 0, 0, 1, 1, 1, 1, 0]"]
  show ?thesis
    using t1 t2 t3 one_episode_run two_episodes_run b by blast
qed

subsection \<open>The root's sense cell\<close>

lemma good_root_upto_8: "list_all good_root_ok [1..<9]"
  by code_simp

lemma bad_root_upto_8: "list_all bad_root_ok [1..<9]"
  by code_simp

lemma built_root:
  assumes "static_tree_layout_good_locality n = Inr nodes \<or>
           static_tree_layout_bad_locality n = Inr nodes"
  shows "root_sense_unreferenced nodes \<and> sense (nodes ! 0)"
proof -
  have "\<not> (n < 1 \<or> 8 < n)"
  proof
    assume "n < 1 \<or> 8 < n"
    from builders_abort [OF this] assms show False by auto
  qed
  then have "1 \<le> n \<and> n < 9" by linarith
  then have "n \<in> set [1..<9]" by simp
  then have "good_root_ok n" "bad_root_ok n"
    using good_root_upto_8 bad_root_upto_8 by (simp_all only: list_all_iff)
  then show ?thesis
    using assms by (auto simp: good_root_ok_def bad_root_ok_def)
qed

text \<open>
  Claim C10. On the nodes that the good-locality or the bad-locality builder returns for
  any participant count, and for every schedule, that is for every interleaving and
  number of episodes: no departure list names the root's sense cell and the root has no
  parent, so its \<^verbatim>\<open>await\<close> has no operation on its own sense cell; no step of any
  thread reads or writes the root's sense cell; and the cell holds true, as built.
\<close>

theorem root_sense_never_touched:
  assumes "static_tree_layout_good_locality n = Inr nodes \<or>
           static_tree_layout_bad_locality n = Inr nodes"
  shows "root_sense_unreferenced nodes \<and>
         Node_Sense 0 \<notin> cells_of (static_tree_await (nodes ! 0) 0) \<and>
         list_all (\<lambda>(t, l). \<not> touches (Node_Sense 0) l)
           (trace_of (static_tree_body nodes) sched (static_tree_init nodes)) \<and>
         flags (mem (run (static_tree_body nodes) sched (static_tree_init nodes)))
           (Node_Sense 0) = True"
proof -
  note b = built_root [OF assms]
  then have u: "root_sense_unreferenced nodes" and s: "sense (nodes ! 0)" by simp_all
  have "nodes \<noteq> []" using u by (simp add: root_sense_unreferenced_def)
  then have "0 < length nodes" by simp
  then have "Node_Sense 0 \<notin> cells_of (static_tree_body nodes 0 (local_sense (nodes ! 0)))"
    using root_sense_never_named [OF u] by (simp add: never_names_def)
  then have c: "Node_Sense 0 \<notin> cells_of (static_tree_await (nodes ! 0) 0)"
    by (simp add: static_tree_body_def)
  show ?thesis
    using u c root_sense_in_runs [OF u, of sched] s by simp
qed

text \<open>The tree on four nodes, and a schedule in which the leaves arrive first.\<close>

theorem root_sense_never_touched_witness:
  "\<exists>nodes. static_tree_layout_good_locality 4 = Inr nodes \<and>
     root_sense_unreferenced nodes \<and>
     list_all (\<lambda>(t, l). \<not> touches (Node_Sense 0) l)
       (trace_of (static_tree_body nodes) [3, 3, 1, 1, 2, 2, 2, 2, 0, 0, 0, 0, 0, 0, 0]
          (static_tree_init nodes)) \<and>
     flags (mem (run (static_tree_body nodes) [3, 3, 1, 1, 2, 2, 2, 2, 0, 0, 0, 0, 0, 0, 0]
                   (static_tree_init nodes))) (Node_Sense 0) = True"
proof -
  obtain nodes where n: "static_tree_layout_good_locality 4 = Inr nodes"
    by (simp add: static_tree_layout_good_locality_def good_locality_switch_def)
  then have "static_tree_layout_good_locality 4 = Inr nodes \<or>
             static_tree_layout_bad_locality 4 = Inr nodes" by simp
  from root_sense_never_touched [OF this, of "[3, 3, 1, 1, 2, 2, 2, 2, 0, 0, 0, 0, 0, 0, 0]"] n
  show ?thesis by blast
qed

end
